theory Spec2Isabelle
  imports Main "HOL-Library.Word" "HOL-Library.Monad_Syntax" "HOL-Library.Signed_Division"
begin

section \<open>The sleeptimer service of \<^verbatim>\<open>sl_sleeptimer.c\<close>\<close>

text \<open>
  The C module keeps its state in file-level statics and in timer handles owned by the
  callers. The embedding puts both in one record and passes it through every function.
  Unsigned C integers are words of the same width, so every \<open>+\<close>, \<open>-\<close> and \<open>*\<close> wraps
  as in C. Pointers to handles are addresses; address \<open>0\<close> is \<^verbatim>\<open>NULL\<close>.
\<close>

unbundle bit_operations_syntax

subsection \<open>Types\<close>

type_synonym u8 = "8 word"
type_synonym u16 = "16 word"
type_synonym u32 = "32 word"
type_synonym u64 = "64 word"

type_synonym addr = nat

datatype sl_status =
    SL_STATUS_OK
  | SL_STATUS_NULL_POINTER
  | SL_STATUS_INVALID_PARAMETER
  | SL_STATUS_INVALID_STATE
  | SL_STATUS_NOT_READY
  | SL_STATUS_EMPTY

datatype sl_sleeptimer_time_format_t =
    TIME_FORMAT_UNIX
  | TIME_FORMAT_NTP
  | TIME_FORMAT_ZIGBEE_CLUSTER

text \<open>
  Modelled from the spec: the handle structure \<^verbatim>\<open>sl_sleeptimer_timer_handle_t\<close> is declared
  in \<^verbatim>\<open>sl_sleeptimer.h\<close>, which is not among the sources. Its fields are the ones the
  spec lists and the C file reads and writes. A callback is a function pointer, kept as
  a number with \<open>0\<close> for \<^verbatim>\<open>NULL\<close>.
\<close>

record timer_handle =
  callback_data :: nat
  priority :: u8
  option_flags :: u16
  "next" :: addr
  callback :: nat
  timeout_periodic :: u32
  delta :: u32

text \<open>
  The statics of the C file, the memory holding the handles, the registers of the
  hardware abstraction layer the module drives, and the list of callback invocations
  made so far (the handle passed to each call, oldest first).

  Modelled from the spec: \<^verbatim>\<open>sl_sleeptimer_timestamp_t\<close> is an unsigned 32-bit count of
  seconds and \<^verbatim>\<open>sl_sleeptimer_time_zone_offset_t\<close> a signed 32-bit count of seconds; both
  typedefs are in the absent header. The time zone is kept as a 32-bit word and read
  through \<open>sint\<close>. The hardware layer (\<^verbatim>\<open>sleeptimer_hal_*\<close>) is absent too: the counter,
  the compare register, the two interrupt enables and the frequency are fields, and a
  read of the counter returns \<open>hal_counter\<close>.
\<close>

record sleeptimer =
  handles :: "addr \<Rightarrow> timer_handle"
  timer_head :: addr
  last_delta_update_count :: u32
  is_sleeptimer_initialized :: bool
  max_millisecond_conversion :: u32
  overflow_counter :: u8
  second_count :: u32
  overflow_tick_rest :: u32
  tz_offset :: u32
  calculated_tick_rest :: u32
  calculated_sec_count :: u32
  hal_counter :: u32
  hal_compare :: u32
  hal_int_of :: bool
  hal_int_comp :: bool
  hal_timer_frequency :: u32
  invoked :: "addr list"

subsection \<open>Constants\<close>

definition TIME_UNIX_EPOCH :: u32 where "TIME_UNIX_EPOCH = 1970"
definition TIME_NTP_EPOCH :: u32 where "TIME_NTP_EPOCH = 1900"
definition TIME_ZIGBEE_EPOCH :: u32 where "TIME_ZIGBEE_EPOCH = 2000"

definition TIME_NTP_UNIX_EPOCH_DIFF :: u32 where
  "TIME_NTP_UNIX_EPOCH_DIFF = TIME_UNIX_EPOCH - TIME_NTP_EPOCH"

definition TIME_ZIGBEE_UNIX_EPOCH_DIFF :: u32 where
  "TIME_ZIGBEE_UNIX_EPOCH_DIFF = TIME_ZIGBEE_EPOCH - TIME_UNIX_EPOCH"

definition TIME_DAY_COUNT_NTP_TO_UNIX_EPOCH :: u32 where
  "TIME_DAY_COUNT_NTP_TO_UNIX_EPOCH = TIME_NTP_UNIX_EPOCH_DIFF * 365 + 17"

definition TIME_DAY_COUNT_ZIGBEE_TO_UNIX_EPOCH :: u32 where
  "TIME_DAY_COUNT_ZIGBEE_TO_UNIX_EPOCH = TIME_ZIGBEE_UNIX_EPOCH_DIFF * 365 + 7"

definition TIME_SEC_PER_DAY :: u32 where
  "TIME_SEC_PER_DAY = 60 * 60 * 24"

definition TIME_NTP_EPOCH_OFFSET_SEC :: u32 where
  "TIME_NTP_EPOCH_OFFSET_SEC = TIME_DAY_COUNT_NTP_TO_UNIX_EPOCH * TIME_SEC_PER_DAY"

definition TIME_ZIGBEE_EPOCH_OFFSET_SEC :: u32 where
  "TIME_ZIGBEE_EPOCH_OFFSET_SEC = TIME_DAY_COUNT_ZIGBEE_TO_UNIX_EPOCH * TIME_SEC_PER_DAY"

definition TIME_DAY_PER_YEAR :: u32 where
  "TIME_DAY_PER_YEAR = 365"

definition TIME_SEC_PER_YEAR :: u32 where
  "TIME_SEC_PER_YEAR = TIME_SEC_PER_DAY * TIME_DAY_PER_YEAR"

definition TIME_UNIX_TIMESTAMP_MAX :: u32 where
  "TIME_UNIX_TIMESTAMP_MAX = 0x7FFFFFFF"

definition UINT32_MAX :: u32 where
  "UINT32_MAX = 0xFFFFFFFF"

subsection \<open>Hardware abstraction layer\<close>

text \<open>
  Modelled from the spec: the functions \<^verbatim>\<open>sleeptimer_hal_*\<close> and the two event masks
  live in \<^verbatim>\<open>sl_sleeptimer_hal.h\<close> and the peripheral drivers, which are not among the
  sources. The spec's contract: \<^verbatim>\<open>hal_init_timer\<close> starts the counter from zero,
  \<^verbatim>\<open>hal_get_counter\<close> returns the current counter, \<^verbatim>\<open>hal_set_compare\<close> arms the compare
  match at the given value, and \<^verbatim>\<open>hal_enable_int\<close>/\<^verbatim>\<open>hal_disable_int\<close> take a mask with one
  bit for the overflow event and one for the compare event.
\<close>

definition SLEEPTIMER_EVENT_OF :: u8 where "SLEEPTIMER_EVENT_OF = 0x01"
definition SLEEPTIMER_EVENT_COMP :: u8 where "SLEEPTIMER_EVENT_COMP = 0x02"

definition sleeptimer_hal_init_timer :: "sleeptimer \<Rightarrow> sleeptimer" where
  "sleeptimer_hal_init_timer s = s\<lparr>hal_counter := 0\<rparr>"

definition sleeptimer_hal_get_counter :: "sleeptimer \<Rightarrow> u32" where
  "sleeptimer_hal_get_counter s = hal_counter s"

definition sleeptimer_hal_set_compare :: "u32 \<Rightarrow> sleeptimer \<Rightarrow> sleeptimer" where
  "sleeptimer_hal_set_compare v s = s\<lparr>hal_compare := v\<rparr>"

definition sleeptimer_hal_enable_int :: "u8 \<Rightarrow> sleeptimer \<Rightarrow> sleeptimer" where
  "sleeptimer_hal_enable_int flag s =
     s\<lparr>hal_int_of := (hal_int_of s \<or> flag AND SLEEPTIMER_EVENT_OF \<noteq> 0),
       hal_int_comp := (hal_int_comp s \<or> flag AND SLEEPTIMER_EVENT_COMP \<noteq> 0)\<rparr>"

definition sleeptimer_hal_disable_int :: "u8 \<Rightarrow> sleeptimer \<Rightarrow> sleeptimer" where
  "sleeptimer_hal_disable_int flag s =
     s\<lparr>hal_int_of := (hal_int_of s \<and> flag AND SLEEPTIMER_EVENT_OF = 0),
       hal_int_comp := (hal_int_comp s \<and> flag AND SLEEPTIMER_EVENT_COMP = 0)\<rparr>"

definition sleeptimer_hal_get_timer_frequency :: "sleeptimer \<Rightarrow> u32" where
  "sleeptimer_hal_get_timer_frequency s = hal_timer_frequency s"

definition sl_sleeptimer_get_timer_frequency :: "sleeptimer \<Rightarrow> u32" where
  "sl_sleeptimer_get_timer_frequency s = sleeptimer_hal_get_timer_frequency s"

subsection \<open>Initialisation\<close>

text \<open>
  The state at reset: C zero-initialises the statics; no handle is linked, the counter
  stands at zero and the frequency is the one the hardware is clocked with.
\<close>

definition null_handle :: timer_handle where
  "null_handle = \<lparr>callback_data = 0, priority = 0, option_flags = 0, next = 0,
                  callback = 0, timeout_periodic = 0, delta = 0\<rparr>"

definition power_on :: "u32 \<Rightarrow> sleeptimer" where
  "power_on f = \<lparr>handles = (\<lambda>_. null_handle), timer_head = 0,
                 last_delta_update_count = 0, is_sleeptimer_initialized = False,
                 max_millisecond_conversion = 0, overflow_counter = 0, second_count = 0,
                 overflow_tick_rest = 0, tz_offset = 0, calculated_tick_rest = 0,
                 calculated_sec_count = 0, hal_counter = 0, hal_compare = 0,
                 hal_int_of = False, hal_int_comp = False, hal_timer_frequency = f,
                 invoked = []\<rparr>"

definition sl_sleeptimer_init :: "sleeptimer \<Rightarrow> sl_status \<times> sleeptimer" where
  "sl_sleeptimer_init s =
     (if \<not> is_sleeptimer_initialized s then
        let s1 = s\<lparr>timer_head := 0, last_delta_update_count := 0, overflow_counter := 0\<rparr>;
            s2 = sleeptimer_hal_init_timer s1;
            s3 = sleeptimer_hal_enable_int SLEEPTIMER_EVENT_OF s2;
            freq = (ucast (sleeptimer_hal_get_timer_frequency s3) :: u64);
            s4 = s3\<lparr>second_count := 0,
                    calculated_tick_rest := ucast (((ucast UINT32_MAX :: u64) + 1) mod freq),
                    calculated_sec_count := ucast (((ucast UINT32_MAX :: u64) + 1) div freq),
                    max_millisecond_conversion :=
                      ucast (((ucast UINT32_MAX :: u64) * 1000) div freq),
                    is_sleeptimer_initialized := True\<rparr>
        in (SL_STATUS_OK, s4)
      else (SL_STATUS_OK, s))"

subsection \<open>Handles in memory\<close>

text \<open>
  Writes through a handle pointer. The critical sections (\<^verbatim>\<open>CORE_ENTER_ATOMIC\<close> and
  \<^verbatim>\<open>CORE_EXIT_ATOMIC\<close>) mask interrupts on the single CPU; the model runs one function
  at a time, so they leave no trace in it.
\<close>

definition set_delta :: "addr \<Rightarrow> u32 \<Rightarrow> sleeptimer \<Rightarrow> sleeptimer" where
  "set_delta h v s = s\<lparr>handles := (handles s)(h := (handles s h)\<lparr>delta := v\<rparr>)\<rparr>"

definition set_next :: "addr \<Rightarrow> addr \<Rightarrow> sleeptimer \<Rightarrow> sleeptimer" where
  "set_next h n s = s\<lparr>handles := (handles s)(h := (handles s h)\<lparr>next := n\<rparr>)\<rparr>"

text \<open>
  User callbacks are code outside the module: \<open>cbs f h d\<close> is what the function behind
  the pointer \<open>f\<close> does to the state when called with handle \<open>h\<close> and data \<open>d\<close>. Every
  invocation is recorded in \<open>invoked\<close> before the callback runs.
\<close>

type_synonym callbacks = "nat \<Rightarrow> addr \<Rightarrow> nat \<Rightarrow> sleeptimer \<Rightarrow> sleeptimer"

definition invoke :: "callbacks \<Rightarrow> addr \<Rightarrow> sleeptimer \<Rightarrow> sleeptimer" where
  "invoke cbs h s =
     cbs (callback (handles s h)) h (callback_data (handles s h))
         (s\<lparr>invoked := invoked s @ [h]\<rparr>)"

text \<open>Callbacks that return without touching the timer service or letting time pass.\<close>

definition idle_callbacks :: callbacks where
  "idle_callbacks f h d s = s"

subsection \<open>Delta list\<close>

text \<open>
  The loops walk the \<open>next\<close> pointers. On a chain that never reaches \<^verbatim>\<open>NULL\<close> they do
  not return, which the option type records as \<open>None\<close>.

  \<^verbatim>\<open>delta_list_insert_timer\<close>: the walk writes \<^verbatim>\<open>handle->delta\<close> on every step, then the
  handle is spliced in between \<open>prev\<close> and \<open>current\<close>.
\<close>

partial_function (option) insert_walk ::
  "addr \<Rightarrow> addr \<Rightarrow> addr \<Rightarrow> u32 \<Rightarrow> sleeptimer \<Rightarrow> (addr \<times> addr \<times> u32 \<times> sleeptimer) option"
where
  "insert_walk handle prev current local_handle_delta s =
     (if current \<noteq> 0
         \<and> (local_handle_delta \<ge> delta (handles s current)
            \<or> delta (handles s current) = 0
            \<or> (local_handle_delta - delta (handles s current) = 0
               \<and> priority (handles s handle) > priority (handles s current)))
      then
        let local_handle_delta' = local_handle_delta - delta (handles s current);
            s' = set_delta handle local_handle_delta' s
        in insert_walk handle current (next (handles s' current)) local_handle_delta' s'
      else Some (prev, current, local_handle_delta, s))"

definition delta_list_insert_timer :: "addr \<Rightarrow> u32 \<Rightarrow> sleeptimer \<Rightarrow> sleeptimer option" where
  "delta_list_insert_timer handle timeout s0 =
     (let local_handle_delta = timeout;
          s = set_delta handle local_handle_delta s0
      in if timer_head s \<noteq> 0 then
           do {
             (prev, current, local_handle_delta', s1) \<leftarrow>
               insert_walk handle 0 (timer_head s) local_handle_delta s;
             let s2 = (if prev \<noteq> 0 then set_next prev handle s1
                       else s1\<lparr>timer_head := handle\<rparr>);
                 s3 = set_next handle current s2;
                 s4 = (if current \<noteq> 0
                       then set_delta current
                              (delta (handles s3 current) - local_handle_delta') s3
                       else s3)
             in Some s4
           }
         else Some (set_next handle 0 (s\<lparr>timer_head := handle\<rparr>)))"

text \<open>
  \<^verbatim>\<open>delta_list_remove_timer\<close>. The function is static and its callers pass a handle that
  is not \<^verbatim>\<open>NULL\<close>.
\<close>

partial_function (option) remove_walk ::
  "(addr \<Rightarrow> timer_handle) \<Rightarrow> addr \<Rightarrow> addr \<Rightarrow> addr \<Rightarrow> (addr \<times> addr) option"
where
  "remove_walk hp handle prev current =
     (if current \<noteq> 0 \<and> current \<noteq> handle
      then remove_walk hp handle current (next (hp current))
      else Some (prev, current))"

definition delta_list_remove_timer :: "addr \<Rightarrow> sleeptimer \<Rightarrow> (sl_status \<times> sleeptimer) option"
where
  "delta_list_remove_timer handle s =
     do {
       (prev, current) \<leftarrow> remove_walk (handles s) handle 0 (timer_head s);
       if current \<noteq> handle then Some (SL_STATUS_INVALID_STATE, s)
       else
         let s1 = (if prev \<noteq> 0 then set_next prev (next (handles s handle)) s
                   else s\<lparr>timer_head := next (handles s handle)\<rparr>);
             nx = next (handles s1 handle);
             s2 = (if nx \<noteq> 0
                   then set_delta nx (delta (handles s1 nx) + delta (handles s1 handle)) s1
                   else s1)
         in Some (SL_STATUS_OK, s2)
     }"

definition set_comparator_for_next_timer :: "sleeptimer \<Rightarrow> sleeptimer" where
  "set_comparator_for_next_timer s =
     (let compare_value = last_delta_update_count s + delta (handles s (timer_head s))
      in sleeptimer_hal_set_compare compare_value
           (sleeptimer_hal_enable_int SLEEPTIMER_EVENT_COMP s))"

definition update_first_timer_delta :: "sleeptimer \<Rightarrow> sleeptimer" where
  "update_first_timer_delta s =
     (let current_cnt = sleeptimer_hal_get_counter s
      in if timer_head s \<noteq> 0 then
           let time_diff = current_cnt - last_delta_update_count s
           in if delta (handles s (timer_head s)) \<ge> time_diff then
                (set_delta (timer_head s) (delta (handles s (timer_head s)) - time_diff) s)
                  \<lparr>last_delta_update_count := current_cnt\<rparr>
              else
                set_delta (timer_head s) 0
                  (s\<lparr>last_delta_update_count :=
                       current_cnt - delta (handles s (timer_head s))\<rparr>)
         else s\<lparr>last_delta_update_count := current_cnt\<rparr>)"

subsection \<open>Scheduler interface\<close>

text \<open>
  An output parameter is a pointer to a cell of the caller: \<open>None\<close> is the \<^verbatim>\<open>NULL\<close>
  pointer, \<open>Some v\<close> a cell holding \<open>v\<close>. A function with an output parameter returns
  the cell as it leaves it.
\<close>

partial_function (option) running_walk ::
  "(addr \<Rightarrow> timer_handle) \<Rightarrow> addr \<Rightarrow> addr \<Rightarrow> bool \<Rightarrow> bool option"
where
  "running_walk hp handle current running =
     (if current \<noteq> 0 \<and> \<not> running then
        (if current = handle then running_walk hp handle current True
         else running_walk hp handle (next (hp current)) running)
      else Some running)"

definition sl_sleeptimer_is_timer_running ::
  "addr \<Rightarrow> bool option \<Rightarrow> sleeptimer \<Rightarrow> (sl_status \<times> bool option) option"
where
  "sl_sleeptimer_is_timer_running handle running s =
     (if handle = 0 \<or> running = None then Some (SL_STATUS_NULL_POINTER, running)
      else do {
        r \<leftarrow> running_walk (handles s) handle (timer_head s) False;
        Some (SL_STATUS_OK, Some r)
      })"

text \<open>
  \<^verbatim>\<open>create_timer\<close>. With a zero initial timeout the callback runs at once; a one-shot
  timer then returns, a periodic one goes on with the period as its timeout.
\<close>

definition create_timer ::
  "callbacks \<Rightarrow> addr \<Rightarrow> u32 \<Rightarrow> u32 \<Rightarrow> nat \<Rightarrow> nat \<Rightarrow> u8 \<Rightarrow> u16 \<Rightarrow> sleeptimer
     \<Rightarrow> (sl_status \<times> sleeptimer) option"
where
  "create_timer cbs handle timeout_initial timeout_period cb cb_data prio flags s =
     (let s1 = s\<lparr>handles := (handles s)(handle := (handles s handle)
                   \<lparr>priority := prio, callback_data := cb_data, next := 0,
                    timeout_periodic := timeout_period, callback := cb,
                    option_flags := flags\<rparr>)\<rparr>;
          (returned, timeout_initial', s2) =
            (if timeout_initial = 0 then
               let s1a = set_delta handle 0 s1;
                   s1b = (if callback (handles s1a handle) \<noteq> 0 then invoke cbs handle s1a
                          else s1a)
               in if timeout_period \<noteq> 0 then (False, timeout_period, s1b)
                  else (True, timeout_initial, s1b)
             else (False, timeout_initial, s1))
      in if returned then Some (SL_STATUS_OK, s2)
         else do {
           s3 \<leftarrow> delta_list_insert_timer handle timeout_initial' (update_first_timer_delta s2);
           Some (SL_STATUS_OK,
                 if timer_head s3 = handle then set_comparator_for_next_timer s3 else s3)
         })"

definition sl_sleeptimer_start_timer ::
  "callbacks \<Rightarrow> addr \<Rightarrow> u32 \<Rightarrow> nat \<Rightarrow> nat \<Rightarrow> u8 \<Rightarrow> u16 \<Rightarrow> sleeptimer
     \<Rightarrow> (sl_status \<times> sleeptimer) option"
where
  "sl_sleeptimer_start_timer cbs handle timeout cb cb_data prio flags s =
     (if handle = 0 then Some (SL_STATUS_NULL_POINTER, s)
      else do {
        (_, is_running) \<leftarrow> sl_sleeptimer_is_timer_running handle (Some False) s;
        if is_running = Some True then Some (SL_STATUS_NOT_READY, s)
        else create_timer cbs handle timeout 0 cb cb_data prio flags s
      })"

definition sl_sleeptimer_start_periodic_timer ::
  "callbacks \<Rightarrow> addr \<Rightarrow> u32 \<Rightarrow> nat \<Rightarrow> nat \<Rightarrow> u8 \<Rightarrow> u16 \<Rightarrow> sleeptimer
     \<Rightarrow> (sl_status \<times> sleeptimer) option"
where
  "sl_sleeptimer_start_periodic_timer cbs handle timeout cb cb_data prio flags s =
     (if handle = 0 then Some (SL_STATUS_NULL_POINTER, s)
      else do {
        (_, is_running) \<leftarrow> sl_sleeptimer_is_timer_running handle (Some False) s;
        if is_running = Some True then Some (SL_STATUS_INVALID_STATE, s)
        else create_timer cbs handle timeout timeout cb cb_data prio flags s
      })"

definition sl_sleeptimer_stop_timer :: "addr \<Rightarrow> sleeptimer \<Rightarrow> (sl_status \<times> sleeptimer) option"
where
  "sl_sleeptimer_stop_timer handle s =
     (if handle = 0 then Some (SL_STATUS_NULL_POINTER, s)
      else
        let s1 = update_first_timer_delta s;
            set_comparator = (timer_head s1 = handle);
            s2 = (if set_comparator then sleeptimer_hal_disable_int SLEEPTIMER_EVENT_COMP s1
                  else s1)
        in do {
          (error, s3) \<leftarrow> delta_list_remove_timer handle s2;
          if error \<noteq> SL_STATUS_OK then Some (error, s3)
          else Some (SL_STATUS_OK,
                     if set_comparator \<and> timer_head s3 \<noteq> 0
                     then set_comparator_for_next_timer s3 else s3)
        })"

definition sl_sleeptimer_restart_timer ::
  "callbacks \<Rightarrow> addr \<Rightarrow> u32 \<Rightarrow> nat \<Rightarrow> nat \<Rightarrow> u8 \<Rightarrow> u16 \<Rightarrow> sleeptimer
     \<Rightarrow> (sl_status \<times> sleeptimer) option"
where
  "sl_sleeptimer_restart_timer cbs handle timeout cb cb_data prio flags s =
     (if handle = 0 then Some (SL_STATUS_NULL_POINTER, s)
      else do {
        (_, s1) \<leftarrow> sl_sleeptimer_stop_timer handle s;
        create_timer cbs handle timeout 0 cb cb_data prio flags s1
      })"

definition sl_sleeptimer_restart_periodic_timer ::
  "callbacks \<Rightarrow> addr \<Rightarrow> u32 \<Rightarrow> nat \<Rightarrow> nat \<Rightarrow> u8 \<Rightarrow> u16 \<Rightarrow> sleeptimer
     \<Rightarrow> (sl_status \<times> sleeptimer) option"
where
  "sl_sleeptimer_restart_periodic_timer cbs handle timeout cb cb_data prio flags s =
     (if handle = 0 then Some (SL_STATUS_NULL_POINTER, s)
      else do {
        (_, s1) \<leftarrow> sl_sleeptimer_stop_timer handle s;
        create_timer cbs handle timeout timeout cb cb_data prio flags s1
      })"

text \<open>
  \<^verbatim>\<open>sl_sleeptimer_get_timer_time_remaining\<close> accumulates in the caller's cell \<^verbatim>\<open>*time\<close>
  from the start, before it knows whether the handle is on the list.
\<close>

partial_function (option) remaining_walk ::
  "(addr \<Rightarrow> timer_handle) \<Rightarrow> addr \<Rightarrow> addr \<Rightarrow> u32 \<Rightarrow> (addr \<times> u32) option"
where
  "remaining_walk hp handle current time =
     (if current \<noteq> handle \<and> current \<noteq> 0
      then remaining_walk hp handle (next (hp current)) (time + delta (hp current))
      else Some (current, time))"

definition sl_sleeptimer_get_timer_time_remaining ::
  "addr \<Rightarrow> u32 option \<Rightarrow> sleeptimer \<Rightarrow> (sl_status \<times> u32 option \<times> sleeptimer) option"
where
  "sl_sleeptimer_get_timer_time_remaining handle time s =
     (if handle = 0 \<or> time = None then Some (SL_STATUS_NULL_POINTER, time, s)
      else
        let s1 = update_first_timer_delta s;
            time1 = delta (handles s1 handle)
        in do {
          (current, time2) \<leftarrow> remaining_walk (handles s1) handle (timer_head s1) time1;
          if current \<noteq> handle then Some (SL_STATUS_NOT_READY, Some time2, s1)
          else
            let elapsed = sleeptimer_hal_get_counter s1 - last_delta_update_count s1
            in if time2 > elapsed then Some (SL_STATUS_OK, Some (time2 - elapsed), s1)
               else Some (SL_STATUS_OK, Some 0, s1)
        })"

text \<open>
  \<^verbatim>\<open>sl_sleeptimer_get_remaining_time_of_first_timer\<close> accumulates in a local and stores
  it through \<^verbatim>\<open>time_remaining\<close> only when a handle matches. The pointer is not checked;
  the model takes the cell it points to.
\<close>

partial_function (option) first_timer_walk ::
  "(addr \<Rightarrow> timer_handle) \<Rightarrow> u16 \<Rightarrow> addr \<Rightarrow> u32 \<Rightarrow> u32 option option"
where
  "first_timer_walk hp flags current time =
     (if current \<noteq> 0 then
        let time' = time + delta (hp current)
        in if option_flags (hp current) = flags then Some (Some time')
           else first_timer_walk hp flags (next (hp current)) time'
      else Some None)"

definition sl_sleeptimer_get_remaining_time_of_first_timer ::
  "u16 \<Rightarrow> u32 \<Rightarrow> sleeptimer \<Rightarrow> (sl_status \<times> u32 \<times> sleeptimer) option"
where
  "sl_sleeptimer_get_remaining_time_of_first_timer flags time_remaining s =
     do {
       found \<leftarrow> first_timer_walk (handles s) flags (timer_head s) 0;
       case found of
         Some time \<Rightarrow> Some (SL_STATUS_OK, time, s)
       | None \<Rightarrow> Some (SL_STATUS_EMPTY, time_remaining, s)
     }"

definition sl_sleeptimer_get_tick_count :: "sleeptimer \<Rightarrow> u32" where
  "sl_sleeptimer_get_tick_count s = sleeptimer_hal_get_counter s"

definition sl_sleeptimer_get_tick_count64 :: "sleeptimer \<Rightarrow> u64" where
  "sl_sleeptimer_get_tick_count64 s =
     ucast (sleeptimer_hal_get_counter s) OR push_bit 32 (ucast (overflow_counter s))"

subsection \<open>Interrupt handler\<close>

text \<open>
  The scan of \<^verbatim>\<open>process_timer_irq\<close> for the handle to fire: among the handles whose
  deltas fit in what is left of \<open>delta_tot\<close>, the first one of the smallest priority
  number.
\<close>

partial_function (option) priority_walk ::
  "(addr \<Rightarrow> timer_handle) \<Rightarrow> addr \<Rightarrow> addr \<Rightarrow> u32 \<Rightarrow> addr option"
where
  "priority_walk hp current temp delta_tot_temp =
     (if temp \<noteq> 0 \<and> delta_tot_temp \<ge> delta (hp temp)
      then priority_walk hp
             (if priority (hp current) > priority (hp temp) then temp else current)
             (next (hp temp)) (delta_tot_temp - delta (hp temp))
      else Some current)"

text \<open>One turn of the dispatch loop, from the loop test to the next one.\<close>

definition dispatch_body ::
  "callbacks \<Rightarrow> u32 \<Rightarrow> u32 \<Rightarrow> sleeptimer \<Rightarrow> (u32 \<times> u32 \<times> sleeptimer) option"
where
  "dispatch_body cbs delta_tot current_cnt s =
     (let s1 = s\<lparr>last_delta_update_count := current_cnt\<rparr>
      in do {
        current \<leftarrow> priority_walk (handles s1) (timer_head s1) (timer_head s1) delta_tot;
        let delta_tot1 = delta_tot - delta (handles s1 current);
            s2 = set_delta current 0 s1
        in do {
          (_, s3) \<leftarrow> delta_list_remove_timer current s2;
          s4 \<leftarrow> (if timeout_periodic (handles s3 current) \<noteq> 0
                 then delta_list_insert_timer current
                        (timeout_periodic (handles s3 current)) s3
                 else Some s3);
          let s5 = (if callback (handles s4 current) \<noteq> 0 then invoke cbs current s4 else s4);
              new_cnt = sleeptimer_hal_get_counter s5
          in Some (delta_tot1 + (new_cnt - current_cnt), new_cnt, s5)
        }
      })"

text \<open>
  The dispatch loop can go on for ever (a callback may restart its own timer with a
  zero delay), so it is run for at most \<open>n\<close> turns. The flag of the result tells whether
  the loop test failed (\<open>True\<close>) or the turns ran out (\<open>False\<close>).
\<close>

fun dispatch_loop ::
  "callbacks \<Rightarrow> nat \<Rightarrow> u32 \<Rightarrow> u32 \<Rightarrow> sleeptimer \<Rightarrow> (bool \<times> u32 \<times> u32 \<times> sleeptimer) option"
where
  "dispatch_loop cbs 0 delta_tot current_cnt s =
     (if timer_head s \<noteq> 0 \<and> delta_tot \<ge> delta (handles s (timer_head s))
      then Some (False, delta_tot, current_cnt, s)
      else Some (True, delta_tot, current_cnt, s))"
| "dispatch_loop cbs (Suc n) delta_tot current_cnt s =
     (if timer_head s \<noteq> 0 \<and> delta_tot \<ge> delta (handles s (timer_head s))
      then do {
        (delta_tot', current_cnt', s') \<leftarrow> dispatch_body cbs delta_tot current_cnt s;
        dispatch_loop cbs n delta_tot' current_cnt' s'
      }
      else Some (True, delta_tot, current_cnt, s))"

text \<open>
  The overflow branch of \<^verbatim>\<open>process_timer_irq\<close>. It calls
  \<^verbatim>\<open>set_comparator_for_next_timer\<close>, which reads \<^verbatim>\<open>timer_head->delta\<close>, without testing
  the head: on an empty list this dereferences \<^verbatim>\<open>NULL\<close>, the result \<open>None\<close>.
\<close>

definition process_overflow :: "sleeptimer \<Rightarrow> sleeptimer option" where
  "process_overflow s =
     (let timer_freq = sl_sleeptimer_get_timer_frequency s;
          s1 = s\<lparr>overflow_tick_rest := overflow_tick_rest s + calculated_tick_rest s\<rparr>;
          s2 = (if overflow_tick_rest s1 \<ge> timer_freq
                then s1\<lparr>second_count := second_count s1 + 1,
                        overflow_tick_rest := overflow_tick_rest s1 - timer_freq\<rparr>
                else s1);
          s3 = s2\<lparr>second_count := second_count s2 + calculated_sec_count s2\<rparr>;
          s4 = s3\<lparr>overflow_counter := overflow_counter s3 + 1\<rparr>;
          s5 = update_first_timer_delta s4
      in if timer_head s5 = 0 then None else Some (set_comparator_for_next_timer s5))"

definition process_compare ::
  "callbacks \<Rightarrow> nat \<Rightarrow> sleeptimer \<Rightarrow> (bool \<times> sleeptimer) option"
where
  "process_compare cbs n s =
     (let current_cnt = sleeptimer_hal_get_counter s;
          delta_tot = current_cnt - last_delta_update_count s
      in do {
        (finished, delta_tot', current_cnt', s1) \<leftarrow> dispatch_loop cbs n delta_tot current_cnt s;
        if \<not> finished then Some (False, s1)
        else if timer_head s1 \<noteq> 0 then
          Some (True,
                set_comparator_for_next_timer
                  ((set_delta (timer_head s1)
                      (delta (handles s1 (timer_head s1)) - delta_tot') s1)
                     \<lparr>last_delta_update_count := current_cnt'\<rparr>))
        else Some (True, sleeptimer_hal_disable_int SLEEPTIMER_EVENT_COMP s1)
      })"

definition process_timer_irq ::
  "callbacks \<Rightarrow> nat \<Rightarrow> u8 \<Rightarrow> sleeptimer \<Rightarrow> (bool \<times> sleeptimer) option"
where
  "process_timer_irq cbs n local_flag s =
     do {
       s1 \<leftarrow> (if local_flag AND SLEEPTIMER_EVENT_OF \<noteq> 0 then process_overflow s else Some s);
       if local_flag AND SLEEPTIMER_EVENT_COMP \<noteq> 0 then process_compare cbs n s1
       else Some (True, s1)
     }"

subsection \<open>Well-formed delta lists\<close>

text \<open>
  \<open>dlist hp p xs\<close>: following \<open>next\<close> from \<open>p\<close> visits exactly the handles \<open>xs\<close>, in this
  order, and then reaches \<^verbatim>\<open>NULL\<close>; no handle is \<^verbatim>\<open>NULL\<close> and none appears twice.
\<close>

fun dlist :: "(addr \<Rightarrow> timer_handle) \<Rightarrow> addr \<Rightarrow> addr list \<Rightarrow> bool" where
  "dlist hp p [] = (p = 0)"
| "dlist hp p (x # xs) = (p = x \<and> x \<noteq> 0 \<and> x \<notin> set xs \<and> dlist hp (next (hp x)) xs)"

definition timer_list :: "sleeptimer \<Rightarrow> addr list \<Rightarrow> bool" where
  "timer_list s xs = dlist (handles s) (timer_head s) xs"

text \<open>
  The absolute fire time of a handle \<open>H\<close> of the list \<open>xs\<close>: the deltas from the head
  through \<open>H\<close>, added to \<open>last_delta_update_count\<close>, in 32 bits.
\<close>

definition deltas_through :: "sleeptimer \<Rightarrow> addr list \<Rightarrow> addr \<Rightarrow> u32" where
  "deltas_through s xs H =
     sum_list (map (\<lambda>a. delta (handles s a)) (takeWhile (\<lambda>a. a \<noteq> H) xs @ [H]))"

definition fire_time :: "sleeptimer \<Rightarrow> addr list \<Rightarrow> addr \<Rightarrow> u32" where
  "fire_time s xs H = last_delta_update_count s + deltas_through s xs H"

subsection \<open>Wall clock\<close>

text \<open>
  \<^verbatim>\<open>is_valid_time\<close>. The first test mixes the signed time zone with the unsigned time
  stamp: \<^verbatim>\<open>abs(time_zone)\<close> is taken on the signed value and cast back, and
  \<^verbatim>\<open>UINT32_MAX - time_zone\<close> is computed on 32-bit unsigned values.
\<close>

definition is_valid_time :: "u32 \<Rightarrow> sl_sleeptimer_time_format_t \<Rightarrow> u32 \<Rightarrow> bool" where
  "is_valid_time time format time_zone =
     (let valid_time =
            ((sint time_zone < 0 \<and> time > word_of_int \<bar>sint time_zone\<bar>)
             \<or> (0 \<le> sint time_zone \<and> time \<le> UINT32_MAX - time_zone))
      in if format = TIME_FORMAT_UNIX then
           (if time > TIME_UNIX_TIMESTAMP_MAX then False else valid_time)
         else if format = TIME_FORMAT_NTP \<and> time \<ge> TIME_NTP_EPOCH_OFFSET_SEC then
           valid_time
         else if format = TIME_FORMAT_ZIGBEE_CLUSTER
                 \<and> time \<le> TIME_UNIX_TIMESTAMP_MAX - TIME_ZIGBEE_EPOCH_OFFSET_SEC then
           valid_time
         else False)"

text \<open>
  \<^verbatim>\<open>sl_sleeptimer_get_time\<close>: the division and the remainder are C's unsigned ones; a
  frequency of zero is outside the contract of the hardware layer.
\<close>

definition sl_sleeptimer_get_time :: "sleeptimer \<Rightarrow> u32" where
  "sl_sleeptimer_get_time s =
     (let cnt = sleeptimer_hal_get_counter s;
          freq = sl_sleeptimer_get_timer_frequency s;
          time = second_count s + cnt div freq
      in if cnt mod freq + overflow_tick_rest s \<ge> freq then time + 1 else time)"

text \<open>
  \<^verbatim>\<open>sl_sleeptimer_set_time\<close>: the two statics are overwritten before the counter's
  seconds are compared, so the refusal in the \<^verbatim>\<open>else\<close> branch returns a changed state.
\<close>

definition sl_sleeptimer_set_time :: "u32 \<Rightarrow> sleeptimer \<Rightarrow> sl_status \<times> sleeptimer" where
  "sl_sleeptimer_set_time time s =
     (if \<not> is_valid_time time TIME_FORMAT_UNIX 0 then (SL_STATUS_INVALID_PARAMETER, s)
      else
        let freq = sl_sleeptimer_get_timer_frequency s;
            cnt = sleeptimer_hal_get_counter s;
            s1 = s\<lparr>second_count := time, overflow_tick_rest := 0\<rparr>;
            counter_sec = cnt div freq
        in if second_count s1 \<ge> counter_sec then
             (SL_STATUS_OK, s1\<lparr>second_count := second_count s1 - counter_sec\<rparr>)
           else (SL_STATUS_INVALID_PARAMETER, s1))"

text \<open>
  The four epoch conversions. The output pointer is written on success only, so the
  result is either the status of the refusal or the value stored.
\<close>

definition sl_sleeptimer_convert_unix_time_to_ntp :: "u32 \<Rightarrow> sl_status + u32" where
  "sl_sleeptimer_convert_unix_time_to_ntp time =
     (let temp_ntp_time = time + TIME_NTP_EPOCH_OFFSET_SEC
      in if \<not> is_valid_time temp_ntp_time TIME_FORMAT_NTP 0
         then Inl SL_STATUS_INVALID_PARAMETER else Inr temp_ntp_time)"

definition sl_sleeptimer_convert_ntp_time_to_unix :: "u32 \<Rightarrow> sl_status + u32" where
  "sl_sleeptimer_convert_ntp_time_to_unix ntp_time =
     (let temp_time = ntp_time - TIME_NTP_EPOCH_OFFSET_SEC
      in if \<not> is_valid_time temp_time TIME_FORMAT_UNIX 0
         then Inl SL_STATUS_INVALID_PARAMETER else Inr temp_time)"

definition sl_sleeptimer_convert_unix_time_to_zigbee :: "u32 \<Rightarrow> sl_status + u32" where
  "sl_sleeptimer_convert_unix_time_to_zigbee time =
     (let temp_zigbee_time = time - TIME_ZIGBEE_EPOCH_OFFSET_SEC
      in if \<not> is_valid_time temp_zigbee_time TIME_FORMAT_ZIGBEE_CLUSTER 0
         then Inl SL_STATUS_INVALID_PARAMETER else Inr temp_zigbee_time)"

definition sl_sleeptimer_convert_zigbee_time_to_unix :: "u32 \<Rightarrow> sl_status + u32" where
  "sl_sleeptimer_convert_zigbee_time_to_unix zigbee_time =
     (let temp_time = zigbee_time + TIME_ZIGBEE_EPOCH_OFFSET_SEC
      in if \<not> is_valid_time temp_time TIME_FORMAT_UNIX 0
         then Inl SL_STATUS_INVALID_PARAMETER else Inr temp_time)"

subsection \<open>Calendar\<close>

text \<open>
  \<^verbatim>\<open>TIME_LEAP_DAYS_UP_TO_YEAR\<close> is a macro. The two conversions below apply it to a
  \<^verbatim>\<open>uint8_t\<close>, which C promotes to \<^verbatim>\<open>int\<close>: the subtraction can go below zero and the
  division truncates towards zero.
\<close>

definition TIME_UNIX_YEAR_MAX :: u32 where
  "TIME_UNIX_YEAR_MAX = 2038 - TIME_NTP_EPOCH"

definition TIME_LEAP_DAYS_UP_TO_YEAR :: "int \<Rightarrow> int" where
  "TIME_LEAP_DAYS_UP_TO_YEAR year = ((year - 3) sdiv 4) + 1"

text \<open>
  Modelled from the spec: the date structure \<^verbatim>\<open>sl_sleeptimer_date_t\<close> and the enumerations
  of months and week days are declared in \<^verbatim>\<open>sl_sleeptimer.h\<close>, which is not among the
  sources. The fields are the ones the spec lists and the C file reads and writes. The
  year counts from 1900. A month is its number of months since January, as the C file
  uses it to index \<^verbatim>\<open>days_in_month\<close>, and is kept in the eight bits the C file casts it
  to; a week day is the remainder the C file computes. The time zone is a signed 32-bit
  count of seconds, kept as a word.
\<close>

definition MONTH_JANUARY :: u8 where "MONTH_JANUARY = 0"
definition MONTH_DECEMBER :: u8 where "MONTH_DECEMBER = 11"

record sl_sleeptimer_date_t =
  sec :: u8
  min_field :: u8
  hour :: u8
  month_day :: u8
  month :: u8
  year :: u16
  day_of_week :: u8
  day_of_year :: u16
  time_zone :: u32

definition days_in_month :: "u8 list list" where
  "days_in_month =
     [[31, 28, 31, 30, 31, 30, 31, 31, 30, 31, 30, 31],
      [31, 29, 31, 30, 31, 30, 31, 31, 30, 31, 30, 31]]"

definition compute_day_of_week :: "u32 \<Rightarrow> u8" where
  "compute_day_of_week day = ucast ((day + 4) mod 7)"

definition is_leap_year :: "u16 \<Rightarrow> bool" where
  "is_leap_year yr \<longleftrightarrow> yr mod 4 = 0 \<and> (yr mod 100 \<noteq> 0 \<or> yr mod 400 = 0)"

text \<open>
  \<^verbatim>\<open>is_valid_date\<close>. The date is passed by value, so the test for a \<^verbatim>\<open>NULL\<close> pointer has
  no counterpart. The year is compared as a 32-bit unsigned value, the type of
  \<^verbatim>\<open>TIME_UNIX_YEAR_MAX\<close>.
\<close>

definition is_valid_date :: "sl_sleeptimer_date_t \<Rightarrow> bool" where
  "is_valid_date date =
     (if ucast (year date) > TIME_UNIX_YEAR_MAX
         \<or> month date > MONTH_DECEMBER
         \<or> (month_day date = 0
             \<or> month_day date
                 > days_in_month ! (if is_leap_year (year date) then 1 else 0) ! unat (month date))
         \<or> hour date > 23
         \<or> min_field date > 59
         \<or> sec date > 59
      then False
      else if ucast (year date) = TIME_UNIX_YEAR_MAX then
        (if month date > MONTH_JANUARY then False
         else if month_day date > 19 then False
         else if hour date > 3 then False
         else if min_field date > 14 then False
         else if sec date > 7 then False
         else True)
      else True)"

text \<open>
  The loop of \<^verbatim>\<open>sl_sleeptimer_convert_time_to_date\<close> that takes the days of the passed
  months off \<open>time\<close>. It reads \<^verbatim>\<open>days_in_month[leap_year_flag][current_month]\<close> with no
  bound on \<open>current_month\<close>. The two rows are contiguous in memory, so entry 12 of the
  first row is entry 0 of the second: \<open>month_walk\<close> walks the table from the start of the
  chosen row to its end, both rows laid out one after the other. A read past the end of
  the table is the result \<open>None\<close>.
\<close>

fun month_walk :: "u8 list \<Rightarrow> u32 \<Rightarrow> u8 \<Rightarrow> (u32 \<times> u8) option" where
  "month_walk [] time current_month = None"
| "month_walk (d # ds) time current_month =
     (if time \<ge> ucast d then month_walk ds (time - ucast d) (current_month + 1)
      else Some (time, current_month))"

text \<open>
  \<^verbatim>\<open>sl_sleeptimer_convert_time_to_date\<close>. \<open>date\<close> is the structure the caller passes; a
  refusal leaves it as it was.
\<close>

definition sl_sleeptimer_convert_time_to_date ::
  "u32 \<Rightarrow> u32 \<Rightarrow> sl_sleeptimer_date_t \<Rightarrow> (sl_status \<times> sl_sleeptimer_date_t) option"
where
  "sl_sleeptimer_convert_time_to_date time tz date =
     (if \<not> is_valid_time time TIME_FORMAT_UNIX tz then Some (SL_STATUS_INVALID_PARAMETER, date)
      else
        let d1 = date\<lparr>sec := ucast (time mod 60)\<rparr>;
            time1 = time div 60;
            d2 = d1\<lparr>min_field := ucast (time1 mod 60)\<rparr>;
            time2 = time1 div 60;
            d3 = d2\<lparr>hour := ucast (time2 mod 24)\<rparr>;
            time3 = time2 div 24;
            d4 = d3\<lparr>day_of_week := compute_day_of_week time3\<rparr>;
            full_year0 = (ucast (time3 div TIME_DAY_PER_YEAR) :: u8);
            (full_year, leap_day) =
              (if full_year0 > 2 then
                 let leap_day0 = (word_of_int (TIME_LEAP_DAYS_UP_TO_YEAR (uint full_year0)) :: u8);
                     full_year1 = (ucast ((time3 - ucast leap_day0) div TIME_DAY_PER_YEAR) :: u8)
                 in (full_year1, (word_of_int (TIME_LEAP_DAYS_UP_TO_YEAR (uint full_year1)) :: u8))
               else (full_year0, 0));
            d5 = d4\<lparr>year := ucast (TIME_NTP_UNIX_EPOCH_DIFF + ucast full_year)\<rparr>;
            leap_year_flag = (if is_leap_year (year d5) then 1 else 0);
            time4 = (time3 - ucast leap_day) - (TIME_DAY_PER_YEAR * ucast full_year);
            d6 = d5\<lparr>day_of_year := ucast (time4 + 1)\<rparr>
        in case month_walk (drop (12 * leap_year_flag) (concat days_in_month)) time4 0 of
             None \<Rightarrow> None
           | Some (time5, current_month) \<Rightarrow>
               Some (SL_STATUS_OK,
                     d6\<lparr>month := current_month, month_day := ucast (time5 + 1), time_zone := tz\<rparr>))"

text \<open>
  \<^verbatim>\<open>sl_sleeptimer_convert_date_to_time\<close>. \<open>full_year\<close> is the low eight bits of a 32-bit
  unsigned difference; \<open>month_days\<close> is 16 bits wide. The time zone is added at the end.
\<close>

definition sl_sleeptimer_convert_date_to_time :: "sl_sleeptimer_date_t \<Rightarrow> sl_status + u32" where
  "sl_sleeptimer_convert_date_to_time date =
     (if \<not> is_valid_date date then Inl SL_STATUS_INVALID_PARAMETER
      else
        let full_year = (ucast (ucast (year date) - TIME_NTP_UNIX_EPOCH_DIFF) :: u8);
            month_v = month date;
            time0 = ucast full_year * TIME_SEC_PER_YEAR;
            month_days0 = (if full_year > 2
                           then (ucast (word_of_int (TIME_LEAP_DAYS_UP_TO_YEAR (uint full_year)) :: u8) :: u16)
                           else 0);
            leap_year_flag = (if is_leap_year (year date) then 1 else 0);
            month_days1 = foldl (\<lambda>acc d. acc + ucast d) month_days0
                            (take (unat month_v) (days_in_month ! leap_year_flag));
            month_days2 = month_days1 + (ucast (month_day date) - 1);
            time1 = time0 + ucast month_days2 * TIME_SEC_PER_DAY;
            time2 = time1 + (3600 * ucast (hour date) + 60 * ucast (min_field date) + ucast (sec date));
            time3 = time2 + time_zone date
        in Inr time3)"

text \<open>
  Two dates: 29 February 2024, 12:00:00, with time zone 0; and 1 January 1970, 00:00:00,
  with a time zone of 3600 seconds.
\<close>

definition demo_date :: sl_sleeptimer_date_t where
  "demo_date = \<lparr>sec = 0, min_field = 0, hour = 12, month_day = 29, month = 1, year = 124,
      day_of_week = 0, day_of_year = 0, time_zone = 0\<rparr>"

definition demo_date_east :: sl_sleeptimer_date_t where
  "demo_date_east = \<lparr>sec = 0, min_field = 0, hour = 0, month_day = 1, month = 0, year = 70,
      day_of_week = 0, day_of_year = 0, time_zone = 3600\<rparr>"

subsection \<open>Tick arithmetic\<close>

text \<open>
  \<^verbatim>\<open>sl_sleeptimer_ms_to_tick\<close> multiplies in 32 bits, \<^verbatim>\<open>sl_sleeptimer_ms32_to_tick\<close> in 64
  bits and truncates the sum to 32 bits.
\<close>

definition sl_sleeptimer_ms_to_tick :: "sleeptimer \<Rightarrow> u16 \<Rightarrow> u32" where
  "sl_sleeptimer_ms_to_tick s time_ms =
     ((ucast time_ms :: u32) * sleeptimer_hal_get_timer_frequency s) div 1000 + 1"

definition sl_sleeptimer_ms32_to_tick :: "sleeptimer \<Rightarrow> u32 \<Rightarrow> sl_status + u32" where
  "sl_sleeptimer_ms32_to_tick s time_ms =
     (if time_ms \<le> max_millisecond_conversion s then
        Inr (ucast (((ucast time_ms :: u64) * ucast (sleeptimer_hal_get_timer_frequency s))
                    div 1000 + 1))
      else Inl SL_STATUS_INVALID_PARAMETER)"

text \<open>
  \<open>dseg hp p xs q\<close>: following \<open>next\<close> from \<open>p\<close> visits the handles \<open>xs\<close> and arrives
  at \<open>q\<close>.
\<close>

fun dseg :: "(addr \<Rightarrow> timer_handle) \<Rightarrow> addr \<Rightarrow> addr list \<Rightarrow> addr \<Rightarrow> bool" where
  "dseg hp p [] q = (p = q)"
| "dseg hp p (x # xs) q = (p = x \<and> x \<noteq> 0 \<and> dseg hp (next (hp x)) xs q)"

subsection \<open>The delta list as a list of pairs\<close>

text \<open>
  The handles of a list with their deltas, and what insertion and removal do to these
  pairs. The two functions below are what \<^verbatim>\<open>delta_list_insert_timer\<close> and
  \<^verbatim>\<open>delta_list_remove_timer\<close> are proved to compute on a well-formed list. The walk of
  the insertion goes on while \<open>d \<le> t\<close>: the two further tests of the C loop condition
  (a zero delta, equal deadlines with a larger priority number) hold only when this
  one does.
\<close>

definition dl_view :: "sleeptimer \<Rightarrow> addr list \<Rightarrow> (addr \<times> u32) list" where
  "dl_view s xs = map (\<lambda>a. (a, delta (handles s a))) xs"

fun dl_insert :: "addr \<Rightarrow> u32 \<Rightarrow> (addr \<times> u32) list \<Rightarrow> (addr \<times> u32) list" where
  "dl_insert h t [] = [(h, t)]"
| "dl_insert h t ((a, d) # r) = (if d \<le> t then (a, d) # dl_insert h (t - d) r else (h, t) # (a, d - t) # r)"

fun dl_bump :: "u32 \<Rightarrow> (addr \<times> u32) list \<Rightarrow> (addr \<times> u32) list" where
  "dl_bump d [] = []"
| "dl_bump d ((b, e) # r) = (b, e + d) # r"

fun dl_remove :: "addr \<Rightarrow> (addr \<times> u32) list \<Rightarrow> (addr \<times> u32) list" where
  "dl_remove h [] = []"
| "dl_remove h ((a, d) # r) = (if a = h then dl_bump d r else (a, d) # dl_remove h r)"

text \<open>
  The handles that have expired when \<open>t\<close> ticks have elapsed: the longest prefix of the
  list whose cumulative deltas fit in \<open>t\<close>, as the scan of \<^verbatim>\<open>process_timer_irq\<close> walks
  it. \<open>dl_pick pr c ts\<close> is the choice this scan makes among the handles \<open>ts\<close>, starting
  from the candidate \<open>c\<close>: a handle replaces the candidate when its priority number is
  strictly smaller.
\<close>

fun dl_expired :: "u32 \<Rightarrow> (addr \<times> u32) list \<Rightarrow> addr list" where
  "dl_expired t [] = []"
| "dl_expired t ((a, d) # r) = (if d \<le> t then a # dl_expired (t - d) r else [])"

fun dl_pick :: "(addr \<Rightarrow> u8) \<Rightarrow> addr \<Rightarrow> addr list \<Rightarrow> addr" where
  "dl_pick pr c [] = c"
| "dl_pick pr c (t # ts) = dl_pick pr (if pr c > pr t then t else c) ts"

text \<open>
  \<open>links_only s s'\<close>: the two states differ at most in the list head and in the \<open>next\<close>
  and \<open>delta\<close> fields of handles.
\<close>

definition links_only :: "sleeptimer \<Rightarrow> sleeptimer \<Rightarrow> bool" where
  "links_only s s' \<longleftrightarrow>
     (\<forall>a. priority (handles s' a) = priority (handles s a)
        \<and> timeout_periodic (handles s' a) = timeout_periodic (handles s a)
        \<and> callback (handles s' a) = callback (handles s a)
        \<and> callback_data (handles s' a) = callback_data (handles s a)
        \<and> option_flags (handles s' a) = option_flags (handles s a))
     \<and> last_delta_update_count s' = last_delta_update_count s
     \<and> invoked s' = invoked s
     \<and> hal_counter s' = hal_counter s
     \<and> hal_compare s' = hal_compare s
     \<and> hal_int_of s' = hal_int_of s
     \<and> hal_int_comp s' = hal_int_comp s
     \<and> hal_timer_frequency s' = hal_timer_frequency s
     \<and> is_sleeptimer_initialized s' = is_sleeptimer_initialized s
     \<and> max_millisecond_conversion s' = max_millisecond_conversion s
     \<and> overflow_counter s' = overflow_counter s
     \<and> second_count s' = second_count s
     \<and> overflow_tick_rest s' = overflow_tick_rest s
     \<and> tz_offset s' = tz_offset s
     \<and> calculated_tick_rest s' = calculated_tick_rest s
     \<and> calculated_sec_count s' = calculated_sec_count s"

text \<open>The sum of the deltas of the pairs up to the one of handle \<open>H\<close>.\<close>

fun dl_through :: "addr \<Rightarrow> (addr \<times> u32) list \<Rightarrow> u32" where
  "dl_through H [] = 0"
| "dl_through H ((a, d) # r) = (if a = H then d else d + dl_through H r)"

subsection \<open>Callbacks and scenarios\<close>

text \<open>
  Callbacks that leave the timers alone: they change no handle, do not move the list
  head and start no timer themselves. They may do anything else, and time may pass.
\<close>

definition passive_callbacks :: "callbacks \<Rightarrow> bool" where
  "passive_callbacks cbs \<longleftrightarrow>
     (\<forall>f h d s. handles (cbs f h d s) = handles s
                \<and> timer_head (cbs f h d s) = timer_head s
                \<and> invoked (cbs f h d s) = invoked s)"

text \<open>Callbacks during which the counter does not advance.\<close>

definition instant_callbacks :: "callbacks \<Rightarrow> bool" where
  "instant_callbacks cbs \<longleftrightarrow> (\<forall>f h d s. hal_counter (cbs f h d s) = hal_counter s)"

text \<open>
  A run on a 32768 Hz counter that stays at 0: initialisation, then the handle at
  address 16 is started with a timeout of 10 ticks, then the handle at address 32 with a
  timeout of 5 ticks. Both have priority 1 and the callback 7; handle 16 carries the
  option flags 1, handle 32 the flags 0.
\<close>

definition demo_boot :: sleeptimer where
  "demo_boot = snd (sl_sleeptimer_init (power_on 32768))"

definition demo_one :: sleeptimer where
  "demo_one = snd (the (sl_sleeptimer_start_timer idle_callbacks 16 10 7 0 1 1 demo_boot))"

definition demo_two :: sleeptimer where
  "demo_two = snd (the (sl_sleeptimer_start_timer idle_callbacks 32 5 7 0 1 0 demo_one))"

text \<open>
  A second run on the same counter: handle 16 is started with a timeout of 3 ticks and
  priority 5, then handle 32 with a timeout of 3 ticks and priority 1, both one-shot with
  the callback 7.
\<close>

definition demo_low :: sleeptimer where
  "demo_low = snd (the (sl_sleeptimer_start_timer idle_callbacks 16 3 7 0 5 0 demo_boot))"

definition demo_mixed :: sleeptimer where
  "demo_mixed = snd (the (sl_sleeptimer_start_timer idle_callbacks 32 3 7 0 1 0 demo_low))"

text \<open>The same run with handle 32 started as a periodic timer of period 3.\<close>

definition demo_periodic :: sleeptimer where
  "demo_periodic =
     snd (the (sl_sleeptimer_start_periodic_timer idle_callbacks 32 3 7 0 1 0 demo_low))"

text \<open>
  A callback that starts its own handle again, the C function
  \<^verbatim>\<open>void cb(handle, data) { sl_sleeptimer_start_timer(handle, 20, cb, data, 1, 0); }\<close>.
  The pointer \<open>f\<close> it is called through is its own. The start it makes has a timeout
  that is not 0, so this start calls no callback. \<open>demo_restart\<close> is the state after
  handle 48 is started on \<open>demo_two\<close> with timeout 0 and this callback.
\<close>

definition restarting_callbacks :: callbacks where
  "restarting_callbacks f h d s =
     (case sl_sleeptimer_start_timer idle_callbacks h 20 f d 1 0 s of
        Some (_, s') \<Rightarrow> s'
      | None \<Rightarrow> s)"

definition demo_restart :: sleeptimer where
  "demo_restart =
     snd (the (sl_sleeptimer_start_timer restarting_callbacks 48 0 7 0 1 0 demo_two))"

text \<open>
  The rounding the specification words for the two conversions ask for, to compare with
  the code: the ceiling of \<open>a / b\<close> on natural numbers.
\<close>

definition ceiling_div :: "nat \<Rightarrow> nat \<Rightarrow> nat" where
  "ceiling_div a b = (if a mod b = 0 then a div b else a div b + 1)"

section \<open>Properties\<close>

subsection \<open>Word arithmetic\<close>

lemma unat_lt32: "unat (w::u32) < 4294967296"
  using unsigned_less[of w, where 'a=nat] by simp

lemma unat_lt16: "unat (w::u16) < 65536"
  using unsigned_less[of w, where 'a=nat] by simp

lemma unat_ucast_16_32: "unat (ucast (w::u16) :: u32) = unat w"
  using unat_lt16[of w] by (simp add: unsigned_ucast_eq take_bit_nat_eq_self)

lemma unat_ucast_32_64: "unat (ucast (w::u32) :: u64) = unat w"
  using unat_lt32[of w] by (simp add: unsigned_ucast_eq take_bit_nat_eq_self)

lemma unat_ucast_64_32: "unat (ucast (w::u64) :: u32) = unat w mod 4294967296"
  by (simp add: unsigned_ucast_eq take_bit_eq_mod)

lemmas time_consts =
  TIME_UNIX_EPOCH_def TIME_NTP_EPOCH_def TIME_ZIGBEE_EPOCH_def
  TIME_NTP_UNIX_EPOCH_DIFF_def TIME_ZIGBEE_UNIX_EPOCH_DIFF_def
  TIME_DAY_COUNT_NTP_TO_UNIX_EPOCH_def TIME_DAY_COUNT_ZIGBEE_TO_UNIX_EPOCH_def
  TIME_SEC_PER_DAY_def TIME_NTP_EPOCH_OFFSET_SEC_def TIME_ZIGBEE_EPOCH_OFFSET_SEC_def
  TIME_DAY_PER_YEAR_def TIME_SEC_PER_YEAR_def TIME_UNIX_TIMESTAMP_MAX_def UINT32_MAX_def

lemmas hal_defs =
  sleeptimer_hal_init_timer_def sleeptimer_hal_get_counter_def sleeptimer_hal_set_compare_def
  sleeptimer_hal_enable_int_def sleeptimer_hal_disable_int_def
  sleeptimer_hal_get_timer_frequency_def SLEEPTIMER_EVENT_OF_def SLEEPTIMER_EVENT_COMP_def

subsection \<open>Epoch conversions\<close>

lemma ntp_offset_value: "TIME_NTP_EPOCH_OFFSET_SEC = 2208988800"
  by (simp add: time_consts)

lemma zigbee_offset_value: "TIME_ZIGBEE_EPOCH_OFFSET_SEC = 946684800"
  by (simp add: time_consts)

lemma is_valid_time_unix_utc: "is_valid_time t TIME_FORMAT_UNIX 0 = (t \<le> 0x7FFFFFFF)"
  by (auto simp: is_valid_time_def Let_def time_consts word_le_nat_alt word_less_nat_alt)

lemma is_valid_time_ntp_utc: "is_valid_time t TIME_FORMAT_NTP 0 = (2208988800 \<le> t)"
  using unat_lt32[of t]
  by (auto simp: is_valid_time_def Let_def time_consts word_le_nat_alt word_less_nat_alt)

lemma is_valid_time_zigbee_utc:
  "is_valid_time t TIME_FORMAT_ZIGBEE_CLUSTER 0 = (t \<le> 1200798847)"
  by (auto simp: is_valid_time_def Let_def time_consts word_le_nat_alt word_less_nat_alt)

lemma unix_to_ntp_cases:
  "sl_sleeptimer_convert_unix_time_to_ntp t =
     (if t \<le> 2085978495 then Inr (t + 2208988800) else Inl SL_STATUS_INVALID_PARAMETER)"
proof (cases "t \<le> 2085978495")
  case True
  then have "2208988800 \<le> t + 2208988800"
    by (unat_arith; simp)
  with True show ?thesis
    by (simp add: sl_sleeptimer_convert_unix_time_to_ntp_def Let_def is_valid_time_ntp_utc
        ntp_offset_value)
next
  case False
  then have "\<not> 2208988800 \<le> t + 2208988800"
    by (unat_arith; simp)
  with False show ?thesis
    by (simp add: sl_sleeptimer_convert_unix_time_to_ntp_def Let_def is_valid_time_ntp_utc
        ntp_offset_value)
qed

lemma ntp_to_unix_back:
  "t \<le> 0x7FFFFFFF \<Longrightarrow> sl_sleeptimer_convert_ntp_time_to_unix (t + 2208988800) = Inr t"
  by (simp add: sl_sleeptimer_convert_ntp_time_to_unix_def Let_def is_valid_time_unix_utc
      ntp_offset_value)

lemma unix_to_zigbee_cases:
  "sl_sleeptimer_convert_unix_time_to_zigbee t =
     (if 946684800 \<le> t \<and> t \<le> 0x7FFFFFFF then Inr (t - 946684800)
      else Inl SL_STATUS_INVALID_PARAMETER)"
proof -
  have "(t - 946684800 \<le> 1200798847) = (946684800 \<le> t \<and> t \<le> 0x7FFFFFFF)"
    by (unat_arith; simp; arith)
  then show ?thesis
    by (simp add: sl_sleeptimer_convert_unix_time_to_zigbee_def Let_def
        is_valid_time_zigbee_utc zigbee_offset_value)
qed

lemma zigbee_to_unix_back:
  "t \<le> 0x7FFFFFFF \<Longrightarrow> sl_sleeptimer_convert_zigbee_time_to_unix (t - 946684800) = Inr t"
  by (simp add: sl_sleeptimer_convert_zigbee_time_to_unix_def Let_def is_valid_time_unix_utc
      zigbee_offset_value)

text \<open>
  C7, as the code has it. The offsets are \<open>(70 * 365 + 17) * 86400\<close> and
  \<open>(30 * 365 + 7) * 86400\<close> seconds. Unix to NTP succeeds exactly for the time stamps up
  to \<open>2085978495\<close> (the sum must fit 32 bits), and NTP to Unix then gives the time
  stamp back. Unix to Zigbee succeeds exactly for the valid Unix time stamps from
  \<open>946684800\<close> (the Zigbee epoch) on, and Zigbee to Unix then gives the time stamp back.
  Every other input of the forward conversions is refused with
  \<^verbatim>\<open>SL_STATUS_INVALID_PARAMETER\<close>.
\<close>

theorem epoch_round_trips:
  "TIME_NTP_EPOCH_OFFSET_SEC = (70 * 365 + 17) * 86400
   \<and> TIME_ZIGBEE_EPOCH_OFFSET_SEC = (30 * 365 + 7) * 86400
   \<and> sl_sleeptimer_convert_unix_time_to_ntp t =
       (if t \<le> 2085978495 then Inr (t + TIME_NTP_EPOCH_OFFSET_SEC)
        else Inl SL_STATUS_INVALID_PARAMETER)
   \<and> (t \<le> 2085978495 \<longrightarrow>
        sl_sleeptimer_convert_ntp_time_to_unix (t + TIME_NTP_EPOCH_OFFSET_SEC) = Inr t)
   \<and> sl_sleeptimer_convert_unix_time_to_zigbee t =
       (if TIME_ZIGBEE_EPOCH_OFFSET_SEC \<le> t \<and> t \<le> TIME_UNIX_TIMESTAMP_MAX
        then Inr (t - TIME_ZIGBEE_EPOCH_OFFSET_SEC) else Inl SL_STATUS_INVALID_PARAMETER)
   \<and> (TIME_ZIGBEE_EPOCH_OFFSET_SEC \<le> t \<and> t \<le> TIME_UNIX_TIMESTAMP_MAX \<longrightarrow>
        sl_sleeptimer_convert_zigbee_time_to_unix (t - TIME_ZIGBEE_EPOCH_OFFSET_SEC) = Inr t)"
proof -
  have "t \<le> 2085978495 \<Longrightarrow> t \<le> 0x7FFFFFFF"
    by unat_arith
  then show ?thesis
    by (simp add: unix_to_ntp_cases unix_to_zigbee_cases ntp_to_unix_back
        zigbee_to_unix_back ntp_offset_value zigbee_offset_value TIME_UNIX_TIMESTAMP_MAX_def)
qed

theorem epoch_round_trips_witness:
  "sl_sleeptimer_convert_unix_time_to_ntp 1700000000 = Inr 3908988800
   \<and> sl_sleeptimer_convert_ntp_time_to_unix 3908988800 = Inr 1700000000
   \<and> sl_sleeptimer_convert_unix_time_to_zigbee 1700000000 = Inr 753315200
   \<and> sl_sleeptimer_convert_zigbee_time_to_unix 753315200 = Inr 1700000000"
  using epoch_round_trips [of 1700000000]
  by (simp add: ntp_offset_value zigbee_offset_value TIME_UNIX_TIMESTAMP_MAX_def)

text \<open>
  C7 as stated fails: the last second of the Unix range is a valid Unix time stamp, and
  the conversion to NTP refuses it; the Unix epoch itself is refused by the conversion
  to Zigbee.
\<close>

theorem epoch_round_trips_counterexample:
  "sl_sleeptimer_convert_unix_time_to_ntp 0x7FFFFFFF = Inl SL_STATUS_INVALID_PARAMETER
   \<and> sl_sleeptimer_convert_unix_time_to_zigbee 0 = Inl SL_STATUS_INVALID_PARAMETER"
  by (simp add: sl_sleeptimer_convert_unix_time_to_ntp_def
      sl_sleeptimer_convert_unix_time_to_zigbee_def Let_def is_valid_time_ntp_utc
      is_valid_time_zigbee_utc ntp_offset_value zigbee_offset_value)

subsection \<open>Setting and reading the wall clock\<close>

text \<open>
  C9. With a non-zero timer frequency: for every time stamp \<open>t\<close> of the signed 31-bit
  Unix range with \<open>t \<ge> counter div frequency\<close>, \<^verbatim>\<open>sl_sleeptimer_set_time\<close> returns Ok,
  clears \<open>overflow_tick_rest\<close>, leaves the counter alone and rebases \<open>second_count\<close> so
  that \<^verbatim>\<open>sl_sleeptimer_get_time\<close> on the resulting state returns \<open>t\<close>; for every time
  stamp beyond the signed 31-bit range it returns InvalidParameter.
\<close>

theorem set_time_then_get_time:
  assumes "hal_timer_frequency s \<noteq> 0"
  shows "(t \<le> TIME_UNIX_TIMESTAMP_MAX \<and> hal_counter s div hal_timer_frequency s \<le> t \<longrightarrow>
            fst (sl_sleeptimer_set_time t s) = SL_STATUS_OK
          \<and> overflow_tick_rest (snd (sl_sleeptimer_set_time t s)) = 0
          \<and> second_count (snd (sl_sleeptimer_set_time t s))
              = t - hal_counter s div hal_timer_frequency s
          \<and> hal_counter (snd (sl_sleeptimer_set_time t s)) = hal_counter s
          \<and> sl_sleeptimer_get_time (snd (sl_sleeptimer_set_time t s)) = t)
       \<and> (TIME_UNIX_TIMESTAMP_MAX < t \<longrightarrow>
            fst (sl_sleeptimer_set_time t s) = SL_STATUS_INVALID_PARAMETER)"
proof -
  have f: "0 < unat (hal_timer_frequency s)"
    using assms by (simp add: unat_gt_0)
  have "unat (hal_counter s) mod unat (hal_timer_frequency s) < unat (hal_timer_frequency s)"
    using f by simp
  then have rest: "\<not> hal_timer_frequency s \<le> hal_counter s mod hal_timer_frequency s"
    by (simp add: word_le_nat_alt unat_mod_distrib)
  show ?thesis
    using rest
    by (auto simp: sl_sleeptimer_set_time_def is_valid_time_unix_utc Let_def
        sl_sleeptimer_get_time_def sl_sleeptimer_get_timer_frequency_def hal_defs
        TIME_UNIX_TIMESTAMP_MAX_def)
qed

theorem set_time_then_get_time_witness:
  "sl_sleeptimer_get_time
     (snd (sl_sleeptimer_set_time 1700000000 ((power_on 32768)\<lparr>hal_counter := 98304\<rparr>)))
     = 1700000000
   \<and> second_count
       (snd (sl_sleeptimer_set_time 1700000000 ((power_on 32768)\<lparr>hal_counter := 98304\<rparr>)))
     = 1699999997
   \<and> fst (sl_sleeptimer_set_time 0x80000000 ((power_on 32768)\<lparr>hal_counter := 98304\<rparr>))
     = SL_STATUS_INVALID_PARAMETER"
  using set_time_then_get_time [of "(power_on 32768)\<lparr>hal_counter := 98304\<rparr>" 1700000000]
    set_time_then_get_time [of "(power_on 32768)\<lparr>hal_counter := 98304\<rparr>" "0x80000000"]
  by (simp add: power_on_def TIME_UNIX_TIMESTAMP_MAX_def)

subsection \<open>Milliseconds to ticks\<close>

lemma ms_to_tick_unat:
  "unat (sl_sleeptimer_ms_to_tick s ms)
     = (unat ms * unat (hal_timer_frequency s)) mod 2 ^ 32 div 1000 + 1"
proof -
  let ?p = "(ucast ms :: u32) * hal_timer_frequency s"
  have p: "unat ?p = (unat ms * unat (hal_timer_frequency s)) mod 2 ^ 32"
    by (simp add: unat_word_ariths unat_ucast_16_32)
  have d: "unat (?p div 1000) = unat ?p div 1000"
    by (simp add: unat_div_distrib)
  have b: "unat ?p div 1000 + 1 < 2 ^ 32" using unat_lt32[of ?p] by simp
  have "unat (?p div 1000 + 1) = (unat (?p div 1000) + 1) mod 2 ^ 32"
    by (simp add: unat_word_ariths)
  also have "\<dots> = unat ?p div 1000 + 1" using b d by simp
  finally show ?thesis by (simp add: sl_sleeptimer_ms_to_tick_def p hal_defs)
qed

lemma ms32_to_tick_unat:
  "unat (ucast (((ucast (ms::u32) :: u64) * ucast (f::u32)) div 1000 + 1) :: u32)
     = (unat ms * unat f div 1000 + 1) mod 2 ^ 32"
proof -
  let ?p = "(ucast ms :: u64) * ucast f"
  have "unat ms * unat f < 4294967296 * 4294967296"
    using unat_lt32[of ms] unat_lt32[of f] by (intro mult_strict_mono) simp_all
  then have lt: "unat ms * unat f < 2 ^ 64" by simp
  have p: "unat ?p = unat ms * unat f"
    using lt by (simp add: unat_word_ariths unat_ucast_32_64)
  have d: "unat (?p div 1000) = unat ms * unat f div 1000"
    by (simp add: unat_div_distrib p)
  have b: "unat ms * unat f div 1000 + 1 < 2 ^ 64" using lt by simp
  have "unat (?p div 1000 + 1) = (unat (?p div 1000) + 1) mod 2 ^ 64"
    by (simp only: unat_word_ariths) simp
  also have "\<dots> = unat ms * unat f div 1000 + 1"
    using b by (simp only: d) simp
  finally show ?thesis by (simp add: unat_ucast_64_32)
qed

text \<open>
  C6, amended. Both conversions return the floor of \<open>ms * f / 1000\<close> plus one, not the
  ceiling. For a 16-bit \<open>ms\<close> whose product \<open>ms * f\<close> fits 32 bits,
  \<^verbatim>\<open>sl_sleeptimer_ms_to_tick\<close> returns this value. \<^verbatim>\<open>sl_sleeptimer_ms32_to_tick\<close> returns Ok
  exactly when \<open>ms \<le> max_millisecond_conversion\<close> and InvalidParameter otherwise; its
  output is the floor plus one whenever that value fits 32 bits.
\<close>

theorem ms_to_tick_floor_plus_one:
  "(unat ms * unat (hal_timer_frequency s) < 2 ^ 32 \<longrightarrow>
        unat (sl_sleeptimer_ms_to_tick s ms)
          = unat ms * unat (hal_timer_frequency s) div 1000 + 1)
   \<and> (ms32 \<le> max_millisecond_conversion s \<longrightarrow>
        (\<exists>tick. sl_sleeptimer_ms32_to_tick s ms32 = Inr tick
           \<and> (unat ms32 * unat (hal_timer_frequency s) div 1000 + 1 < 2 ^ 32 \<longrightarrow>
                unat tick = unat ms32 * unat (hal_timer_frequency s) div 1000 + 1)))
   \<and> (\<not> ms32 \<le> max_millisecond_conversion s \<longrightarrow>
        sl_sleeptimer_ms32_to_tick s ms32 = Inl SL_STATUS_INVALID_PARAMETER)"
  by (simp add: ms_to_tick_unat sl_sleeptimer_ms32_to_tick_def ms32_to_tick_unat hal_defs)

theorem ms_to_tick_floor_plus_one_witness:
  "unat (sl_sleeptimer_ms_to_tick (snd (sl_sleeptimer_init (power_on 32768))) 1000) = 32769
   \<and> (\<exists>tick. sl_sleeptimer_ms32_to_tick (snd (sl_sleeptimer_init (power_on 32768))) 100000
                = Inr tick \<and> unat tick = 3276801)
   \<and> sl_sleeptimer_ms32_to_tick (snd (sl_sleeptimer_init (power_on 32768))) 131072000
       = Inl SL_STATUS_INVALID_PARAMETER"
  using ms_to_tick_floor_plus_one
          [of 1000 "snd (sl_sleeptimer_init (power_on 32768))" 100000]
        ms_to_tick_floor_plus_one
          [of 1000 "snd (sl_sleeptimer_init (power_on 32768))" 131072000]
  by (simp add: sl_sleeptimer_init_def power_on_def Let_def hal_defs UINT32_MAX_def)

text \<open>
  C6 as stated fails: at 32768 Hz one second (1000 ms) is exactly 32768 ticks, which is
  also the ceiling, and the code returns 32769.
\<close>

theorem ms_to_tick_ceiling_counterexample:
  "unat (sl_sleeptimer_ms_to_tick (snd (sl_sleeptimer_init (power_on 32768))) 1000)
     \<noteq> ceiling_div (1000 * 32768) 1000"
  by (simp add: sl_sleeptimer_ms_to_tick_def sl_sleeptimer_init_def power_on_def Let_def
      hal_defs ceiling_div_def)

subsection \<open>Walking well-formed lists\<close>

lemma handles_set_delta [simp]:
  "handles (set_delta h v s) = (handles s)(h := (handles s h)\<lparr>delta := v\<rparr>)"
  "timer_head (set_delta h v s) = timer_head s"
  "last_delta_update_count (set_delta h v s) = last_delta_update_count s"
  "invoked (set_delta h v s) = invoked s"
  "hal_counter (set_delta h v s) = hal_counter s"
  by (simp_all add: set_delta_def)

lemma handles_set_next [simp]:
  "handles (set_next h n s) = (handles s)(h := (handles s h)\<lparr>next := n\<rparr>)"
  "timer_head (set_next h n s) = timer_head s"
  "last_delta_update_count (set_next h n s) = last_delta_update_count s"
  "invoked (set_next h n s) = invoked s"
  "hal_counter (set_next h n s) = hal_counter s"
  by (simp_all add: set_next_def)

lemma takeWhile_first:
  "\<forall>b\<in>set ys. P b \<Longrightarrow> \<not> P a \<Longrightarrow> takeWhile P (ys @ a # zs) = ys"
  by (induction ys) auto

lemma dropWhile_first:
  "\<forall>b\<in>set ys. P b \<Longrightarrow> \<not> P a \<Longrightarrow> dropWhile P (ys @ a # zs) = a # zs"
  by (induction ys) auto

lemma takeWhile_neq_first:
  "a \<notin> set ys \<Longrightarrow> takeWhile (\<lambda>b. b \<noteq> a) (ys @ a # zs) = ys"
  by (induction ys) auto

lemma dlist_nonzero: "dlist hp p xs \<Longrightarrow> 0 \<notin> set xs"
  by (induction xs arbitrary: p) auto

lemma dlist_mem_nonzero: "dlist hp p xs \<Longrightarrow> a \<in> set xs \<Longrightarrow> a \<noteq> 0"
  by (induction xs arbitrary: p) auto

lemma dlist_distinct: "dlist hp p xs \<Longrightarrow> distinct xs"
  by (induction xs arbitrary: p) auto

lemma dlist_head: "dlist hp p xs \<Longrightarrow> p = (case xs of [] \<Rightarrow> 0 | x # _ \<Rightarrow> x)"
  by (cases xs) auto

lemma dlist_unique: "dlist hp p xs \<Longrightarrow> dlist hp p ys \<Longrightarrow> xs = ys"
proof (induction xs arbitrary: p ys)
  case Nil
  then show ?case by (cases ys) auto
next
  case (Cons x xs)
  then show ?case by (cases ys) auto
qed

lemma dlist_next_cong:
  "(\<And>a. a \<in> set xs \<Longrightarrow> next (hp' a) = next (hp a)) \<Longrightarrow> dlist hp' p xs = dlist hp p xs"
  by (induction xs arbitrary: p) auto

lemma running_walk_True: "running_walk hp h c True = Some True"
  by (subst running_walk.simps) simp

lemma running_walk_dlist:
  "dlist hp p xs \<Longrightarrow> running_walk hp h p False = Some (h \<in> set xs)"
proof (induction xs arbitrary: p)
  case Nil
  then show ?case by (subst running_walk.simps) simp
next
  case (Cons x xs)
  then show ?case
    by (subst running_walk.simps) (auto simp: running_walk_True)
qed

lemma remaining_walk_dlist:
  "dlist hp p xs \<Longrightarrow>
   remaining_walk hp h p t =
     Some (if h \<in> set xs then h else 0,
           t + sum_list (map (\<lambda>a. delta (hp a)) (takeWhile (\<lambda>a. a \<noteq> h) xs)))"
proof (induction xs arbitrary: p t)
  case Nil
  then show ?case by (subst remaining_walk.simps) simp
next
  case (Cons x xs)
  then show ?case
    by (subst remaining_walk.simps) (auto simp: add.assoc)
qed

lemma first_timer_walk_dlist:
  "dlist hp p xs \<Longrightarrow>
   first_timer_walk hp fl p t =
     Some (if \<exists>a\<in>set xs. option_flags (hp a) = fl
           then Some (t + sum_list (map (\<lambda>a. delta (hp a))
                         (takeWhile (\<lambda>a. option_flags (hp a) \<noteq> fl) xs
                          @ take 1 (dropWhile (\<lambda>a. option_flags (hp a) \<noteq> fl) xs))))
           else None)"
proof (induction xs arbitrary: p t)
  case Nil
  then show ?case by (subst first_timer_walk.simps) simp
next
  case (Cons x xs)
  then show ?case
    by (subst first_timer_walk.simps) (auto simp: add.assoc Let_def)
qed

lemma links_only_refl [simp]: "links_only s s"
  by (simp add: links_only_def)

lemma links_only_set_delta [simp]: "links_only s s' \<Longrightarrow> links_only s (set_delta a v s')"
  by (simp add: links_only_def set_delta_def)

lemma links_only_set_next [simp]: "links_only s s' \<Longrightarrow> links_only s (set_next a v s')"
  by (simp add: links_only_def set_next_def)

lemma links_only_head [simp]: "links_only s s' \<Longrightarrow> links_only s (s'\<lparr>timer_head := p\<rparr>)"
  by (simp add: links_only_def)

lemma links_only_trans: "links_only s s' \<Longrightarrow> links_only s' s'' \<Longrightarrow> links_only s s''"
  by (simp add: links_only_def)

lemma dseg_next_cong:
  "(\<And>a. a \<in> set xs \<Longrightarrow> next (hp' a) = next (hp a)) \<Longrightarrow> dseg hp' p xs q = dseg hp p xs q"
  by (induction xs arbitrary: p) auto

lemma dlist_append:
  "dlist hp p (ys @ zs) \<longleftrightarrow>
     (\<exists>q. dseg hp p ys q \<and> dlist hp q zs) \<and> distinct ys \<and> set ys \<inter> set zs = {}"
  by (induction ys arbitrary: p) auto

lemma dseg_relink:
  "dseg hp p ys q \<Longrightarrow> distinct ys \<Longrightarrow> ys \<noteq> [] \<Longrightarrow>
   dseg (hp(last ys := (hp (last ys))\<lparr>next := q'\<rparr>)) p ys q'"
proof (induction ys arbitrary: p)
  case Nil
  then show ?case by simp
next
  case (Cons y ys)
  show ?case
  proof (cases "ys = []")
    case True
    with Cons.prems show ?thesis by simp
  next
    case False
    with Cons.prems have "last ys \<noteq> y" by auto
    with Cons False show ?thesis by simp
  qed
qed

lemma set_delta_twice [simp]: "set_delta h v (set_delta h w s) = set_delta h v s"
  by (simp add: set_delta_def)

lemma set_delta_same: "delta (handles s h) = v \<Longrightarrow> set_delta h v s = s"
proof -
  assume a: "delta (handles s h) = v"
  have "(handles s h)\<lparr>delta := v\<rparr> = handles s h"
    unfolding a[symmetric] by simp
  then have "(handles s)(h := (handles s h)\<lparr>delta := v\<rparr>) = handles s"
    by simp
  then show ?thesis
    by (simp add: set_delta_def)
qed

lemma view_set_delta_other [simp]: "h \<notin> set xs \<Longrightarrow> dl_view (set_delta h v s) xs = dl_view s xs"
  by (auto simp: dl_view_def)

lemma walk_cond: "(d \<le> l \<or> d = 0 \<or> (l - d = 0 \<and> P)) = (d \<le> (l::u32))"
  by auto

lemma insert_walk_unfold:
  "insert_walk h prev c l s =
     (if c \<noteq> 0 \<and> delta (handles s c) \<le> l
      then insert_walk h c (next (handles (set_delta h (l - delta (handles s c)) s) c))
             (l - delta (handles s c)) (set_delta h (l - delta (handles s c)) s)
      else Some (prev, c, l, s))"
  by (subst insert_walk.simps) (simp only: walk_cond Let_def)


lemma insert_walk_spec:
  assumes "dlist (handles s) c zs" "h \<notin> set zs" "delta (handles s h) = l"
  shows "\<exists>ys zs'. zs = ys @ zs'
          \<and> insert_walk h prev c l s
              = Some (last (prev # ys), (case zs' of [] \<Rightarrow> 0 | z # _ \<Rightarrow> z),
                      l - sum_list (map snd (dl_view s ys)),
                      set_delta h (l - sum_list (map snd (dl_view s ys))) s)
          \<and> dl_insert h l (dl_view s zs)
              = dl_view s ys @ (h, l - sum_list (map snd (dl_view s ys)))
                  # (case zs' of [] \<Rightarrow> []
                     | z # r \<Rightarrow> (z, delta (handles s z) - (l - sum_list (map snd (dl_view s ys))))
                               # dl_view s r)"
  using assms
proof (induction zs arbitrary: prev c l s)
  case Nil
  then have "insert_walk h prev c l s = Some (prev, 0, l, s)"
    by (subst insert_walk_unfold) simp
  with Nil show ?case
    by (simp add: dl_view_def set_delta_same)
next
  case (Cons z r)
  from Cons.prems have c: "c = z" "z \<noteq> 0" "z \<noteq> h" "h \<notin> set r" and r: "dlist (handles s) (next (handles s z)) r"
    by auto
  let ?d = "delta (handles s z)"
  show ?case
  proof (cases "?d \<le> l")
    case False
    then have "insert_walk h prev c l s = Some (prev, z, l, s)"
      using c by (subst insert_walk_unfold) simp
    with False Cons.prems c show ?thesis
      by (intro exI[of _ "[]"] exI[of _ "z # r"]) (simp add: dl_view_def set_delta_same)
  next
    case True
    let ?s1 = "set_delta h (l - ?d) s"
    have w: "insert_walk h prev c l s = insert_walk h z (next (handles s z)) (l - ?d) ?s1"
      using c True by (subst insert_walk_unfold) simp
    have "dlist (handles ?s1) (next (handles s z)) r = dlist (handles s) (next (handles s z)) r"
      by (rule dlist_next_cong) (use c in auto)
    with r have d1: "dlist (handles ?s1) (next (handles s z)) r"
      by simp
    have "delta (handles ?s1 h) = l - ?d" by simp
    from Cons.IH[OF d1 c(4) this, of z]
    obtain ys zs' where ih: "r = ys @ zs'"
      "insert_walk h z (next (handles s z)) (l - ?d) ?s1
         = Some (last (z # ys), (case zs' of [] \<Rightarrow> 0 | z # _ \<Rightarrow> z),
                 l - ?d - sum_list (map snd (dl_view ?s1 ys)),
                 set_delta h (l - ?d - sum_list (map snd (dl_view ?s1 ys))) ?s1)"
      "dl_insert h (l - ?d) (dl_view ?s1 r)
         = dl_view ?s1 ys @ (h, l - ?d - sum_list (map snd (dl_view ?s1 ys)))
             # (case zs' of [] \<Rightarrow> []
                | z # r \<Rightarrow> (z, delta (handles ?s1 z) - (l - ?d - sum_list (map snd (dl_view ?s1 ys))))
                          # dl_view ?s1 r)"
      by blast
    have hn: "h \<notin> set ys" "h \<notin> set zs'" using c ih(1) by auto
    then have v: "dl_view ?s1 ys = dl_view s ys" "dl_view ?s1 r = dl_view s r"
      using c by simp_all
    define l' where "l' = l - sum_list (map snd (dl_view s (z # ys)))"
    have e: "l - ?d - sum_list (map snd (dl_view s ys)) = l'"
      by (simp add: dl_view_def l'_def)
    have tl: "(case zs' of [] \<Rightarrow> []
               | z # r \<Rightarrow> (z, delta (handles ?s1 z) - l') # dl_view ?s1 r)
            = (case zs' of [] \<Rightarrow> []
               | z # r \<Rightarrow> (z, delta (handles s z) - l') # dl_view s r)"
      using hn(2) by (cases zs') (simp_all add: dl_view_def)
    have 1: "z # r = (z # ys) @ zs'"
      using ih(1) by simp
    have 2: "insert_walk h prev c l s
               = Some (last (prev # z # ys), (case zs' of [] \<Rightarrow> 0 | z # _ \<Rightarrow> z),
                       l', set_delta h l' s)"
      unfolding w ih(2) v e by simp
    have ih3: "dl_insert h (l - ?d) (dl_view s r)
                 = dl_view s ys @ (h, l') # (case zs' of [] \<Rightarrow> []
                    | z # r \<Rightarrow> (z, delta (handles s z) - l') # dl_view s r)"
      using ih(3) unfolding v e tl .
    have "dl_insert h l (dl_view s (z # r)) = (z, ?d) # dl_insert h (l - ?d) (dl_view s r)"
      using True by (simp add: dl_view_def)
    also have "\<dots> = dl_view s (z # ys) @ (h, l')
                 # (case zs' of [] \<Rightarrow> []
                    | z # r \<Rightarrow> (z, delta (handles s z) - l') # dl_view s r)"
      unfolding ih3 by (simp add: dl_view_def)
    finally have 3: "dl_insert h l (dl_view s (z # r)) = dl_view s (z # ys) @ (h, l')
                 # (case zs' of [] \<Rightarrow> []
                    | z # r \<Rightarrow> (z, delta (handles s z) - l') # dl_view s r)" .
    from 1 2 3 show ?thesis
      unfolding l'_def by blast
  qed
qed

lemma map_fst_view [simp]: "map fst (dl_view s xs) = xs"
  by (simp add: dl_view_def comp_def)

lemma view_append [simp]: "dl_view s (xs @ ys) = dl_view s xs @ dl_view s ys"
  by (simp add: dl_view_def)

lemma view_Cons [simp]: "dl_view s (x # xs) = (x, delta (handles s x)) # dl_view s xs"
  by (simp add: dl_view_def)

lemma view_Nil [simp]: "dl_view s [] = []"
  by (simp add: dl_view_def)

lemma view_cong: "(\<And>a. a \<in> set xs \<Longrightarrow> delta (handles s' a) = delta (handles s a)) \<Longrightarrow> dl_view s' xs = dl_view s xs"
  by (simp add: dl_view_def)

lemma dseg_nonzero: "dseg hp p ys q \<Longrightarrow> a \<in> set ys \<Longrightarrow> a \<noteq> 0"
  by (induction ys arbitrary: p) auto

lemma dseg_head: "dseg hp p ys q \<Longrightarrow> ys \<noteq> [] \<Longrightarrow> p = hd ys"
  by (cases ys) auto

lemma insert_refines:
  assumes "timer_list s xs" "h \<noteq> 0" "h \<notin> set xs"
  shows "\<exists>s'. delta_list_insert_timer h t s = Some s'
           \<and> timer_list s' (map fst (dl_insert h t (dl_view s xs)))
           \<and> dl_view s' (map fst (dl_insert h t (dl_view s xs))) = dl_insert h t (dl_view s xs)
           \<and> links_only s s'"
proof -
  let ?s0 = "set_delta h t s"
  have l0: "dlist (handles ?s0) (timer_head s) xs"
  proof -
    have "dlist (handles ?s0) (timer_head s) xs = dlist (handles s) (timer_head s) xs"
      by (rule dlist_next_cong) (use assms in auto)
    then show ?thesis using assms(1) by (simp add: timer_list_def)
  qed
  have v0: "dl_view ?s0 xs = dl_view s xs"
    using assms(3) by simp
  show ?thesis
  proof (cases xs)
    case Nil
    then have hd0: "timer_head s = 0"
      using assms(1) by (simp add: timer_list_def)
    show ?thesis
      using assms(2) by (simp add: delta_list_insert_timer_def hd0 Nil timer_list_def)
  next
    case (Cons x xs')
    then have hd1: "timer_head s = x" "x \<noteq> 0"
      using assms(1) by (simp_all add: timer_list_def)
    from insert_walk_spec[OF l0 assms(3), of t 0]
    obtain ys zs' where sp: "xs = ys @ zs'"
      and w: "insert_walk h 0 (timer_head s) t ?s0
              = Some (last (0 # ys), (case zs' of [] \<Rightarrow> 0 | z # _ \<Rightarrow> z),
                      t - sum_list (map snd (dl_view ?s0 ys)),
                      set_delta h (t - sum_list (map snd (dl_view ?s0 ys))) ?s0)"
      and i: "dl_insert h t (dl_view ?s0 xs)
              = dl_view ?s0 ys @ (h, t - sum_list (map snd (dl_view ?s0 ys)))
                  # (case zs' of [] \<Rightarrow> []
                     | z # r \<Rightarrow> (z, delta (handles ?s0 z) - (t - sum_list (map snd (dl_view ?s0 ys))))
                               # dl_view ?s0 r)"
      by auto
    have hn: "h \<notin> set ys" "h \<notin> set zs'" using assms(3) sp by auto
    define l' where "l' = t - sum_list (map snd (dl_view s ys))"
    define cur where "cur = (case zs' of [] \<Rightarrow> 0 | z # _ \<Rightarrow> z)"
    define prev where "prev = last (0 # ys)"
    have vy: "dl_view ?s0 ys = dl_view s ys" using hn by simp
    from assms(1) have "dlist (handles s) (timer_head s) (ys @ zs')"
      by (simp add: timer_list_def sp)
    then obtain q where seg: "dseg (handles s) (timer_head s) ys q" and rest: "dlist (handles s) q zs'"
      and dy: "distinct ys" and dj: "set ys \<inter> set zs' = {}"
      by (auto simp: dlist_append)
    have q: "q = cur"
      using rest by (cases zs') (auto simp: cur_def)
    have cur0: "cur \<noteq> 0 \<longleftrightarrow> zs' \<noteq> []"
      using rest by (cases zs') (auto simp: cur_def)
    have curh: "cur \<noteq> h"
      using hn(2) assms(2) by (cases zs') (auto simp: cur_def)
    have prev0: "prev \<noteq> 0 \<longleftrightarrow> ys \<noteq> []"
      using dseg_nonzero[OF seg, of "last ys"] by (auto simp: prev_def)
    have prevh: "ys \<noteq> [] \<Longrightarrow> prev \<noteq> h \<and> prev \<in> set ys \<and> prev = last ys"
      using hn(1) by (auto simp: prev_def)
    let ?s1 = "set_delta h l' ?s0"
    let ?s2 = "if prev \<noteq> 0 then set_next prev h ?s1 else ?s1\<lparr>timer_head := h\<rparr>"
    let ?s3 = "set_next h cur ?s2"
    define s4 where
      "s4 = (if cur \<noteq> 0 then set_delta cur (delta (handles ?s3 cur) - l') ?s3 else ?s3)"
    have res: "delta_list_insert_timer h t s = Some s4"
      using hd1 w unfolding vy s4_def
      by (simp add: delta_list_insert_timer_def Let_def l'_def cur_def prev_def)
    have nx: "\<And>a. next (handles s4 a)
               = (if a = h then cur else if ys \<noteq> [] \<and> a = last ys then h else next (handles s a))"
      using prev0 prevh curh unfolding s4_def by auto
    have dl: "\<And>a. delta (handles s4 a)
               = (if a = cur \<and> cur \<noteq> 0 then delta (handles s a) - l'
                  else if a = h then l' else delta (handles s a))"
      using prev0 prevh curh unfolding s4_def by auto
    have th: "timer_head s4 = (if ys = [] then h else timer_head s)"
      using prev0 unfolding s4_def by auto
    have lo: "links_only s s4"
      unfolding s4_def by simp
    \<comment> \<open>the new chain\<close>
    have tail: "dlist (handles s4) cur zs'"
    proof -
      have "dlist (handles s4) cur zs' = dlist (handles s) cur zs'"
      proof (rule dlist_next_cong)
        fix a assume "a \<in> set zs'"
        then have "a \<noteq> h" "ys \<noteq> [] \<longrightarrow> a \<noteq> last ys"
          using hn(2) dj by (auto dest!: last_in_set)
        then show "next (handles s4 a) = next (handles s a)"
          by (simp only: nx) auto
      qed
      with rest q show ?thesis by simp
    qed
    have front: "dseg (handles s4) (timer_head s4) ys h"
    proof (cases "ys = []")
      case True
      then show ?thesis by (simp only: th) simp
    next
      case False
      have "dseg ((handles s)(last ys := (handles s (last ys))\<lparr>next := h\<rparr>)) (timer_head s) ys h"
        using dseg_relink[OF seg dy False] .
      moreover have "dseg (handles s4) (timer_head s) ys h
          = dseg ((handles s)(last ys := (handles s (last ys))\<lparr>next := h\<rparr>)) (timer_head s) ys h"
      proof (rule dseg_next_cong)
        fix a assume "a \<in> set ys"
        then have "a \<noteq> h" using hn(1) by auto
        then show "next (handles s4 a)
            = next (((handles s)(last ys := (handles s (last ys))\<lparr>next := h\<rparr>)) a)"
          using False by (simp only: nx) simp
      qed
      ultimately show ?thesis using False by (simp only: th) simp
    qed
    have "dlist (handles s4) h (h # zs')"
      using tail hn(2) assms(2) nx[of h] by simp
    with front have chain: "dlist (handles s4) (timer_head s4) (ys @ h # zs')"
      unfolding dlist_append using dy dj hn by auto
    \<comment> \<open>the new deltas\<close>
    have vnew: "dl_view s4 (ys @ h # zs')
                = dl_view s ys @ (h, l') # (case zs' of [] \<Rightarrow> []
                     | z # r \<Rightarrow> (z, delta (handles s z) - l') # dl_view s r)"
    proof -
      have a: "dl_view s4 ys = dl_view s ys"
      proof (rule view_cong)
        fix a assume "a \<in> set ys"
        then have "a \<noteq> h" "a \<noteq> cur \<or> cur = 0"
          using hn(1) dj cur0 by (auto simp: cur_def split: list.splits)
        then show "delta (handles s4 a) = delta (handles s a)"
          by (simp only: dl) auto
      qed
      have b: "dl_view s4 zs' = (case zs' of [] \<Rightarrow> []
                     | z # r \<Rightarrow> (z, delta (handles s z) - l') # dl_view s r)"
      proof (cases zs')
        case Nil
        then show ?thesis by simp
      next
        case (Cons z r)
        then have c: "cur = z" "z \<noteq> 0" "z \<notin> set r" "h \<notin> set r"
          using rest hn(2) by (auto simp: cur_def)
        have "dl_view s4 r = dl_view s r"
        proof (rule view_cong)
          fix a assume "a \<in> set r"
          then have "a \<noteq> h" "a \<noteq> cur" using c by auto
          then show "delta (handles s4 a) = delta (handles s a)"
            by (simp only: dl) auto
        qed
        moreover have "delta (handles s4 z) = delta (handles s z) - l'"
          using c by (simp only: dl) simp
        ultimately show ?thesis using Cons by simp
      qed
      have c: "delta (handles s4 h) = l'"
        using curh by (simp only: dl) simp
      show ?thesis
        by (simp only: view_append view_Cons a b c)
    qed
    have ie: "dl_insert h t (dl_view s xs)
                = dl_view s ys @ (h, l') # (case zs' of [] \<Rightarrow> []
                     | z # r \<Rightarrow> (z, delta (handles s z) - l') # dl_view s r)"
    proof -
      have "(case zs' of [] \<Rightarrow> []
             | z # r \<Rightarrow> (z, delta (handles ?s0 z) - l') # dl_view ?s0 r)
          = (case zs' of [] \<Rightarrow> []
             | z # r \<Rightarrow> (z, delta (handles s z) - l') # dl_view s r)"
        using hn(2) by (cases zs') simp_all
      then show ?thesis
        using i unfolding v0 vy l'_def[symmetric] by simp
    qed
    have mf: "map fst (dl_insert h t (dl_view s xs)) = ys @ h # zs'"
      unfolding ie by (cases zs') simp_all
    show ?thesis
      unfolding mf timer_list_def
      using res chain vnew lo unfolding ie[symmetric] by blast
  qed
qed

lemma remove_walk_spec:
  "dlist hp c zs \<Longrightarrow>
   remove_walk hp g prev c
     = Some (if g \<in> set zs then (last (prev # takeWhile (\<lambda>a. a \<noteq> g) zs), g)
             else (last (prev # zs), 0))"
proof (induction zs arbitrary: prev c)
  case Nil
  then show ?case by (subst remove_walk.simps) simp
next
  case (Cons z r)
  from Cons.prems have c: "c = z" "z \<noteq> 0" and r: "dlist hp (next (hp z)) r"
    by auto
  show ?case
  proof (cases "z = g")
    case True
    then show ?thesis using c by (subst remove_walk.simps) simp
  next
    case False
    then have "remove_walk hp g prev c = remove_walk hp g z (next (hp z))"
      using c by (subst remove_walk.simps) simp
    then show ?thesis
      using Cons.IH[OF r, of z] False by simp
  qed
qed

lemma rem_absent: "g \<notin> fst ` set v \<Longrightarrow> dl_remove g v = v"
  by (induction v) auto

lemma rem_view_split:
  "g \<notin> set ys \<Longrightarrow>
   dl_remove g (dl_view s (ys @ g # zs)) = dl_view s ys @ dl_bump (delta (handles s g)) (dl_view s zs)"
  by (induction ys) auto

lemma map_fst_bump [simp]: "map fst (dl_bump d v) = map fst v"
  by (cases v) auto

lemma remove_refines:
  assumes "timer_list s xs" "g \<noteq> 0"
  shows "\<exists>s'. delta_list_remove_timer g s
                = Some (if g \<in> set xs then SL_STATUS_OK else SL_STATUS_INVALID_STATE, s')
           \<and> timer_list s' (map fst (dl_remove g (dl_view s xs)))
           \<and> dl_view s' (map fst (dl_remove g (dl_view s xs))) = dl_remove g (dl_view s xs)
           \<and> links_only s s'"
proof (cases "g \<in> set xs")
  case False
  then have "dl_remove g (dl_view s xs) = dl_view s xs"
    by (intro rem_absent) (simp add: dl_view_def image_image)
  moreover have "delta_list_remove_timer g s = Some (SL_STATUS_INVALID_STATE, s)"
    using assms False
    by (simp add: delta_list_remove_timer_def timer_list_def remove_walk_spec)
  ultimately show ?thesis
    using assms(1) False by simp
next
  case True
  then obtain ys zs where sp: "xs = ys @ g # zs" and gy: "g \<notin> set ys"
    using split_list_first by fast
  from assms(1) have "dlist (handles s) (timer_head s) (ys @ g # zs)"
    by (simp add: timer_list_def sp)
  then obtain q where seg: "dseg (handles s) (timer_head s) ys q"
    and rest: "dlist (handles s) q (g # zs)"
    and dy: "distinct ys" and dj: "set ys \<inter> set (g # zs) = {}"
    by (auto simp: dlist_append)
  define n where "n = next (handles s g)"
  define prev where "prev = last (0 # ys)"
  from rest have q: "q = g" and gz: "g \<notin> set zs" and tl: "dlist (handles s) n zs"
    by (simp_all add: n_def)
  have n0: "n \<noteq> 0 \<longleftrightarrow> zs \<noteq> []"
    using tl by (cases zs) auto
  have nz: "n \<noteq> 0 \<Longrightarrow> n \<in> set zs \<and> n = hd zs"
    using tl by (cases zs) auto
  have prev0: "prev \<noteq> 0 \<longleftrightarrow> ys \<noteq> []"
    using dseg_nonzero[OF seg, of "last ys"] by (auto simp: prev_def)
  have prevg: "ys \<noteq> [] \<Longrightarrow> prev \<noteq> g \<and> prev \<in> set ys \<and> prev = last ys"
    using gy by (auto simp: prev_def)
  have tw: "takeWhile (\<lambda>a. a \<noteq> g) xs = ys"
    using gy by (simp add: sp takeWhile_neq_first)
  let ?s1 = "if prev \<noteq> 0 then set_next prev n s else s\<lparr>timer_head := n\<rparr>"
  define s2 where
    "s2 = (if n \<noteq> 0 then set_delta n (delta (handles ?s1 n) + delta (handles ?s1 g)) ?s1 else ?s1)"
  have ng: "n \<noteq> g"
    using nz gz assms(2) by (cases "n = 0") auto
  have np: "ys \<noteq> [] \<Longrightarrow> n \<noteq> 0 \<Longrightarrow> n \<noteq> prev"
    using nz prevg dj by auto
  have nx1: "next (handles ?s1 g) = n"
    using prevg prev0 by (auto simp: n_def)
  have w: "remove_walk (handles s) g 0 (timer_head s) = Some (prev, g)"
    using assms(1) True tw unfolding timer_list_def prev_def
    by (simp only: remove_walk_spec if_True)
  have res: "delta_list_remove_timer g s = Some (SL_STATUS_OK, s2)"
    unfolding s2_def n_def delta_list_remove_timer_def w
    by (simp add: Let_def)
  have nx: "\<And>a. next (handles s2 a)
             = (if ys \<noteq> [] \<and> a = last ys then n else next (handles s a))"
    using prev0 prevg unfolding s2_def by auto
  have dl: "\<And>a. delta (handles s2 a)
             = (if a = n \<and> n \<noteq> 0 then delta (handles s a) + delta (handles s g)
                else delta (handles s a))"
    using prev0 prevg ng np unfolding s2_def by auto
  have th: "timer_head s2 = (if ys = [] then n else timer_head s)"
    using prev0 unfolding s2_def by auto
  have lo: "links_only s s2"
    unfolding s2_def by simp
  have tail: "dlist (handles s2) n zs"
  proof -
    have "dlist (handles s2) n zs = dlist (handles s) n zs"
    proof (rule dlist_next_cong)
      fix a assume "a \<in> set zs"
      then have "ys \<noteq> [] \<longrightarrow> a \<noteq> last ys"
        using dj by (auto dest!: last_in_set)
      then show "next (handles s2 a) = next (handles s a)"
        by (simp only: nx) auto
    qed
    with tl show ?thesis by simp
  qed
  have front: "dseg (handles s2) (timer_head s2) ys n"
  proof (cases "ys = []")
    case True
    then show ?thesis by (simp only: th) simp
  next
    case False
    have "dseg ((handles s)(last ys := (handles s (last ys))\<lparr>next := n\<rparr>)) (timer_head s) ys n"
      using dseg_relink[OF seg dy False] .
    moreover have "dseg (handles s2) (timer_head s) ys n
        = dseg ((handles s)(last ys := (handles s (last ys))\<lparr>next := n\<rparr>)) (timer_head s) ys n"
    proof (rule dseg_next_cong)
      fix a assume "a \<in> set ys"
      show "next (handles s2 a)
          = next (((handles s)(last ys := (handles s (last ys))\<lparr>next := n\<rparr>)) a)"
        using False by (simp only: nx) simp
    qed
    ultimately show ?thesis using False by (simp only: th) simp
  qed
  have chain: "dlist (handles s2) (timer_head s2) (ys @ zs)"
    unfolding dlist_append using front tail dy dj by auto
  have vnew: "dl_view s2 (ys @ zs) = dl_view s ys @ dl_bump (delta (handles s g)) (dl_view s zs)"
  proof -
    have a: "dl_view s2 ys = dl_view s ys"
    proof (rule view_cong)
      fix a assume "a \<in> set ys"
      then have "a \<noteq> n \<or> n = 0"
        using dj nz by auto
      then show "delta (handles s2 a) = delta (handles s a)"
        by (simp only: dl) auto
    qed
    have b: "dl_view s2 zs = dl_bump (delta (handles s g)) (dl_view s zs)"
    proof (cases zs)
      case Nil
      then show ?thesis by simp
    next
      case (Cons z r)
      then have c: "n = z" "z \<noteq> 0" "z \<notin> set r"
        using tl by auto
      have "dl_view s2 r = dl_view s r"
      proof (rule view_cong)
        fix a assume "a \<in> set r"
        then have "a \<noteq> n" using c by auto
        then show "delta (handles s2 a) = delta (handles s a)"
          by (simp only: dl) auto
      qed
      moreover have "delta (handles s2 z) = delta (handles s z) + delta (handles s g)"
        using c by (simp only: dl) simp
      ultimately show ?thesis using Cons by simp
    qed
    show ?thesis
      by (simp only: view_append a b)
  qed
  have re: "dl_remove g (dl_view s xs) = dl_view s ys @ dl_bump (delta (handles s g)) (dl_view s zs)"
    unfolding sp using gy by (rule rem_view_split)
  have mf: "map fst (dl_remove g (dl_view s xs)) = ys @ zs"
    unfolding re by simp
  show ?thesis
    unfolding mf timer_list_def
    using res chain vnew lo True unfolding re[symmetric] by auto
qed

lemma deltas_through_view:
  "H \<in> set xs \<Longrightarrow> deltas_through s xs H = dl_through H (dl_view s xs)"
  by (induction xs) (auto simp: deltas_through_def)

lemma fst_set_ins [simp]: "fst ` set (dl_insert h t v) = insert h (fst ` set v)"
proof (induction v arbitrary: t)
  case Nil
  then show ?case by simp
next
  case (Cons p v)
  obtain a d where p: "p = (a, d)" by (cases p)
  show ?case
    by (cases "d \<le> t") (simp_all add: p Cons.IH insert_commute)
qed

lemma fst_set_view [simp]: "fst ` set (dl_view s xs) = set xs"
  by (simp add: dl_view_def image_image)

lemma through_ins_other:
  "H \<noteq> h \<Longrightarrow> H \<in> fst ` set v \<Longrightarrow> dl_through H (dl_insert h t v) = dl_through H v"
proof (induction v arbitrary: t)
  case Nil
  then show ?case by simp
next
  case (Cons p v)
  obtain a d where p: "p = (a, d)" by (cases p)
  show ?case
  proof (cases "a = H")
    case True
    with Cons.prems show ?thesis by (simp add: p)
  next
    case False
    with Cons.prems have "H \<in> fst ` set v" by (simp add: p)
    with Cons.IH Cons.prems(1) have "\<And>t. dl_through H (dl_insert h t v) = dl_through H v" by blast
    with False Cons.prems(1) show ?thesis by (simp add: p)
  qed
qed

lemma through_ins_new:
  "h \<notin> fst ` set v \<Longrightarrow> dl_through h (dl_insert h t v) = t"
proof (induction v arbitrary: t)
  case Nil
  then show ?case by simp
next
  case (Cons p v)
  obtain a d where p: "p = (a, d)" by (cases p)
  from Cons.prems have "a \<noteq> h" "h \<notin> fst ` set v" by (simp_all add: p)
  with Cons.IH show ?case by (simp add: p)
qed

lemma through_bump: "H \<in> fst ` set r \<Longrightarrow> dl_through H (dl_bump d r) = d + dl_through H r"
proof (cases r)
  case Nil
  assume "H \<in> fst ` set r"
  with Nil show ?thesis by simp
next
  case (Cons p v)
  obtain a e where p: "p = (a, e)" by (cases p)
  show ?thesis by (simp add: Cons p add.commute add.left_commute)
qed

lemma through_rem_other:
  "H \<noteq> g \<Longrightarrow> H \<in> fst ` set v \<Longrightarrow> dl_through H (dl_remove g v) = dl_through H v"
proof (induction v)
  case Nil
  then show ?case by simp
next
  case (Cons p v)
  obtain a d where p: "p = (a, d)" by (cases p)
  show ?case
  proof (cases "a = H")
    case True
    with Cons.prems show ?thesis by (simp add: p)
  next
    case False
    with Cons.prems have m: "H \<in> fst ` set v" by (simp add: p)
    with Cons.IH Cons.prems(1) have "dl_through H (dl_remove g v) = dl_through H v" by blast
    with False m show ?thesis by (simp add: p through_bump)
  qed
qed

lemma fst_set_bump [simp]: "fst ` set (dl_bump d r) = fst ` set r"
proof (cases r)
  case Nil
  then show ?thesis by simp
next
  case (Cons p v)
  obtain a e where p: "p = (a, e)" by (cases p)
  show ?thesis by (simp add: Cons p)
qed

lemma fst_set_rem: "distinct (map fst v) \<Longrightarrow> fst ` set (dl_remove g v) = fst ` set v - {g}"
proof (induction v)
  case Nil
  then show ?case by simp
next
  case (Cons p v)
  obtain a d where p: "p = (a, d)" by (cases p)
  from Cons.prems have d: "a \<notin> fst ` set v" "distinct (map fst v)" by (simp_all add: p)
  show ?case
  proof (cases "a = g")
    case True
    with d show ?thesis by (simp add: p)
  next
    case False
    with Cons.IH d show ?thesis by (simp add: p insert_Diff_if)
  qed
qed

lemma timer_list_distinct: "timer_list s xs \<Longrightarrow> distinct xs"
  by (auto simp: timer_list_def dest: dlist_distinct)

subsection \<open>Insertion and removal keep the fire times\<close>

text \<open>
  C1. On a well-formed delta list \<open>xs\<close> with a handle \<open>H\<close> on it, whatever
  \<open>last_delta_update_count\<close> is: inserting a handle \<open>h\<close> that is not \<^verbatim>\<open>NULL\<close> and not on the
  list with \<^verbatim>\<open>delta_list_insert_timer\<close> (any timeout, any priority stored in the handle),
  and removing any handle \<open>g\<close> other than \<open>H\<close> with \<^verbatim>\<open>delta_list_remove_timer\<close>, both return
  with a well-formed list that still holds \<open>H\<close>, and the fire time of \<open>H\<close> (the deltas from
  the head through \<open>H\<close>, added to \<open>last_delta_update_count\<close> modulo \<open>2^32\<close>) is the same
  before and after.
\<close>

theorem fire_times_preserved:
  assumes "timer_list s xs" "H \<in> set xs"
  shows "(h \<noteq> 0 \<and> h \<notin> set xs \<longrightarrow>
           (\<exists>s' xs'. delta_list_insert_timer h timeout s = Some s'
              \<and> timer_list s' xs' \<and> set xs' = insert h (set xs)
              \<and> fire_time s' xs' H = fire_time s xs H))
       \<and> (g \<noteq> 0 \<and> g \<noteq> H \<longrightarrow>
           (\<exists>st s' xs'. delta_list_remove_timer g s = Some (st, s')
              \<and> timer_list s' xs' \<and> set xs' = set xs - {g}
              \<and> fire_time s' xs' H = fire_time s xs H))"
proof (intro conjI impI)
  assume a: "h \<noteq> 0 \<and> h \<notin> set xs"
  let ?xs' = "map fst (dl_insert h timeout (dl_view s xs))"
  from insert_refines[OF assms(1), of h timeout] a
  obtain s' where r: "delta_list_insert_timer h timeout s = Some s'"
    "timer_list s' ?xs'" "dl_view s' ?xs' = dl_insert h timeout (dl_view s xs)" "links_only s s'"
    by blast
  have st: "set ?xs' = insert h (set xs)"
    by (simp only: set_map fst_set_ins fst_set_view)
  have Hh: "H \<noteq> h" using a assms(2) by auto
  have "deltas_through s' ?xs' H = dl_through H (dl_view s' ?xs')"
    using assms(2) st by (intro deltas_through_view) simp
  also have "\<dots> = dl_through H (dl_view s xs)"
    unfolding r(3) using Hh assms(2) by (intro through_ins_other) simp_all
  also have "\<dots> = deltas_through s xs H"
    using assms(2) by (simp add: deltas_through_view)
  finally have "fire_time s' ?xs' H = fire_time s xs H"
    using r(4) by (simp add: fire_time_def links_only_def)
  with r st show "\<exists>s' xs'. delta_list_insert_timer h timeout s = Some s'
              \<and> timer_list s' xs' \<and> set xs' = insert h (set xs)
              \<and> fire_time s' xs' H = fire_time s xs H"
    by blast
next
  assume a: "g \<noteq> 0 \<and> g \<noteq> H"
  let ?xs' = "map fst (dl_remove g (dl_view s xs))"
  from remove_refines[OF assms(1), of g] a
  obtain s' where r: "delta_list_remove_timer g s
        = Some (if g \<in> set xs then SL_STATUS_OK else SL_STATUS_INVALID_STATE, s')"
    "timer_list s' ?xs'" "dl_view s' ?xs' = dl_remove g (dl_view s xs)" "links_only s s'"
    by blast
  have "distinct (map fst (dl_view s xs))"
    using timer_list_distinct[OF assms(1)] by simp
  then have st: "set ?xs' = set xs - {g}"
    by (simp only: set_map fst_set_rem fst_set_view)
  have "deltas_through s' ?xs' H = dl_through H (dl_view s' ?xs')"
    using assms(2) st a by (intro deltas_through_view) simp
  also have "\<dots> = dl_through H (dl_view s xs)"
    unfolding r(3) using a assms(2) by (intro through_rem_other) simp_all
  also have "\<dots> = deltas_through s xs H"
    using assms(2) by (simp add: deltas_through_view)
  finally have "fire_time s' ?xs' H = fire_time s xs H"
    using r(4) by (simp add: fire_time_def links_only_def)
  with r st show "\<exists>st s' xs'. delta_list_remove_timer g s = Some (st, s')
              \<and> timer_list s' xs' \<and> set xs' = set xs - {g}
              \<and> fire_time s' xs' H = fire_time s xs H"
    by blast
qed

subsection \<open>The scenario states\<close>

lemmas demo_defs =
  demo_boot_def demo_one_def demo_two_def
  sl_sleeptimer_start_timer_def sl_sleeptimer_is_timer_running_def create_timer_def
  delta_list_insert_timer_def update_first_timer_delta_def set_comparator_for_next_timer_def
  hal_defs sl_sleeptimer_init_def power_on_def Let_def set_delta_def set_next_def
  null_handle_def invoke_def idle_callbacks_def sl_sleeptimer_get_timer_frequency_def
  UINT32_MAX_def running_walk.simps insert_walk.simps

lemma demo_two_list: "timer_list demo_two [32, 16]"
  by (simp add: timer_list_def demo_defs)

lemma demo_two_fields:
  "delta (handles demo_two 32) = 5" "delta (handles demo_two 16) = 5"
  "last_delta_update_count demo_two = 0" "invoked demo_two = []"
  "option_flags (handles demo_two 16) = 1" "option_flags (handles demo_two 32) = 0"
  by (simp_all add: demo_defs)

theorem fire_times_preserved_witness:
  "(\<exists>s' xs'. delta_list_insert_timer 48 7 demo_two = Some s'
      \<and> timer_list s' xs' \<and> set xs' = insert 48 (set [32, 16])
      \<and> fire_time s' xs' 16 = fire_time demo_two [32, 16] 16)
   \<and> (\<exists>st s' xs'. delta_list_remove_timer 32 demo_two = Some (st, s')
      \<and> timer_list s' xs' \<and> set xs' = set [32, 16] - {32}
      \<and> fire_time s' xs' 16 = fire_time demo_two [32, 16] 16)
   \<and> fire_time demo_two [32, 16] 16 = 10"
  using fire_times_preserved [of demo_two "[32, 16]" 16 48 7 32] demo_two_list
  by (simp add: fire_time_def deltas_through_def demo_two_fields)

lemma timer_list_nonzero: "timer_list s xs \<Longrightarrow> a \<in> set xs \<Longrightarrow> a \<noteq> 0"
  by (auto simp: timer_list_def dest: dlist_mem_nonzero)

subsection \<open>Starting a running timer\<close>

text \<open>
  C4. For every handle that is on the (well-formed) delta list, and so is not \<^verbatim>\<open>NULL\<close>,
  \<^verbatim>\<open>sl_sleeptimer_start_timer\<close> returns NotReady and \<^verbatim>\<open>sl_sleeptimer_start_periodic_timer\<close>
  returns InvalidState, and both return the state they were given: neither the delta
  list nor any other part of the scheduler state changes.
\<close>

theorem start_refused_when_running:
  assumes "timer_list s xs" "handle \<in> set xs"
  shows "sl_sleeptimer_start_timer cbs handle timeout cb d p fl s = Some (SL_STATUS_NOT_READY, s)
       \<and> sl_sleeptimer_start_periodic_timer cbs handle timeout cb d p fl s
           = Some (SL_STATUS_INVALID_STATE, s)"
proof -
  from assms have nz: "handle \<noteq> 0"
    by (rule timer_list_nonzero)
  have "sl_sleeptimer_is_timer_running handle (Some False) s = Some (SL_STATUS_OK, Some True)"
    using assms nz
    by (simp add: sl_sleeptimer_is_timer_running_def timer_list_def running_walk_dlist)
  then show ?thesis
    using nz by (simp add: sl_sleeptimer_start_timer_def sl_sleeptimer_start_periodic_timer_def)
qed

theorem start_refused_when_running_witness:
  "sl_sleeptimer_start_timer idle_callbacks 16 3 7 0 0 0 demo_two
     = Some (SL_STATUS_NOT_READY, demo_two)
   \<and> sl_sleeptimer_start_periodic_timer idle_callbacks 16 3 7 0 0 0 demo_two
     = Some (SL_STATUS_INVALID_STATE, demo_two)"
  using start_refused_when_running [of demo_two "[32, 16]" 16 idle_callbacks 3 7 0 0 0]
    demo_two_list
  by simp

subsection \<open>Remaining time of the first timer with given flags\<close>

text \<open>
  C10. On a well-formed list, when \<open>a\<close> is the first handle whose \<open>option_flags\<close> equal
  the flags asked for, \<^verbatim>\<open>sl_sleeptimer_get_remaining_time_of_first_timer\<close> returns Ok
  with the raw sum of the deltas from the head through \<open>a\<close>. It does so whatever the
  hardware counter reads, and it returns the state unchanged: the head is not aged and
  the ticks elapsed since \<open>last_delta_update_count\<close> are not subtracted, so the result is
  measured from \<open>last_delta_update_count\<close>. The witness shows the difference to
  \<^verbatim>\<open>sl_sleeptimer_get_timer_time_remaining\<close>: with the counter at 3, the former
  answers 10 and the latter 7 for the same handle.
\<close>

theorem first_timer_raw_sum:
  assumes "timer_list s xs" "a \<in> set xs" "option_flags (handles s a) = fl"
    and "\<forall>b \<in> set (takeWhile (\<lambda>b. b \<noteq> a) xs). option_flags (handles s b) \<noteq> fl"
  shows "sl_sleeptimer_get_remaining_time_of_first_timer fl out (s\<lparr>hal_counter := c\<rparr>)
           = Some (SL_STATUS_OK, deltas_through s xs a, s\<lparr>hal_counter := c\<rparr>)"
proof -
  let ?P = "\<lambda>b. option_flags (handles s b) \<noteq> fl"
  from assms(2) obtain ys zs where xs: "xs = ys @ a # zs" and a: "a \<notin> set ys"
    using split_list_first by fast
  have tw: "takeWhile (\<lambda>b. b \<noteq> a) xs = ys"
    using a by (simp add: xs takeWhile_neq_first)
  then have ys: "\<forall>b\<in>set ys. ?P b" using assms(4) by simp
  have 1: "takeWhile ?P xs = ys"
    using ys assms(3) by (simp add: xs takeWhile_first)
  have 2: "dropWhile ?P xs = a # zs"
    using ys assms(3) by (simp add: xs dropWhile_first)
  have ex: "\<exists>b\<in>set xs. option_flags (handles s b) = fl"
    using assms(2,3) by blast
  have w: "first_timer_walk (handles s) fl (timer_head s) 0 = Some (Some (deltas_through s xs a))"
    using assms(1) ex unfolding timer_list_def
    by (simp only: first_timer_walk_dlist 1 2 deltas_through_def tw) simp
  show ?thesis
    by (simp add: sl_sleeptimer_get_remaining_time_of_first_timer_def w)
qed

lemmas demo_query_defs =
  sl_sleeptimer_get_timer_time_remaining_def remaining_walk.simps

theorem first_timer_raw_sum_witness:
  "sl_sleeptimer_get_remaining_time_of_first_timer 1 0 (demo_two\<lparr>hal_counter := 3\<rparr>)
     = Some (SL_STATUS_OK, 10, demo_two\<lparr>hal_counter := 3\<rparr>)
   \<and> map_option (\<lambda>(st, out, s). (st, out))
        (sl_sleeptimer_get_timer_time_remaining 16 (Some 0) (demo_two\<lparr>hal_counter := 3\<rparr>))
     = Some (SL_STATUS_OK, Some 7)"
proof -
  have "sl_sleeptimer_get_remaining_time_of_first_timer 1 0 (demo_two\<lparr>hal_counter := 3\<rparr>)
     = Some (SL_STATUS_OK, deltas_through demo_two [32, 16] 16, demo_two\<lparr>hal_counter := 3\<rparr>)"
    using first_timer_raw_sum [of demo_two "[32, 16]" 16 1 0 3] demo_two_list
    by (simp add: demo_two_fields)
  moreover have "deltas_through demo_two [32, 16] 16 = 10"
    by (simp add: deltas_through_def demo_two_fields)
  moreover have "map_option (\<lambda>(st, out, s). (st, out))
        (sl_sleeptimer_get_timer_time_remaining 16 (Some 0) (demo_two\<lparr>hal_counter := 3\<rparr>))
     = Some (SL_STATUS_OK, Some 7)"
    by (simp add: demo_defs demo_query_defs)
  ultimately show ?thesis by simp
qed

subsection \<open>Time remaining of a handle that is not on the list\<close>

lemma update_first_timer_delta_list:
  "timer_list s xs \<Longrightarrow> timer_list (update_first_timer_delta s) xs"
proof -
  assume l: "timer_list s xs"
  have "dlist (handles (update_first_timer_delta s)) (timer_head s) xs
          = dlist (handles s) (timer_head s) xs"
    by (rule dlist_next_cong) (simp add: update_first_timer_delta_def Let_def)
  moreover have "timer_head (update_first_timer_delta s) = timer_head s"
    by (simp add: update_first_timer_delta_def Let_def)
  ultimately show ?thesis
    using l by (simp add: timer_list_def)
qed

lemma time_remaining_not_found:
  assumes "timer_list s xs" "handle \<noteq> 0" "handle \<notin> set xs"
  shows "sl_sleeptimer_get_timer_time_remaining handle (Some v) s
           = Some (SL_STATUS_NOT_READY,
                   Some (delta (handles (update_first_timer_delta s) handle)
                         + sum_list (map (\<lambda>a. delta (handles (update_first_timer_delta s) a)) xs)),
                   update_first_timer_delta s)"
proof -
  let ?s1 = "update_first_timer_delta s"
  have tw: "takeWhile (\<lambda>a. a \<noteq> handle) xs = xs"
    using assms(3) by (intro takeWhile_eq_all_conv[THEN iffD2]) auto
  have "dlist (handles ?s1) (timer_head ?s1) xs"
    using update_first_timer_delta_list[OF assms(1)] by (simp add: timer_list_def)
  from remaining_walk_dlist[OF this, of handle "delta (handles ?s1 handle)"]
  have "remaining_walk (handles ?s1) handle (timer_head ?s1) (delta (handles ?s1 handle))
          = Some (0, delta (handles ?s1 handle)
                       + sum_list (map (\<lambda>a. delta (handles ?s1 a)) xs))"
    using assms(3) by (simp add: tw)
  then show ?thesis
    using assms(2) by (simp add: sl_sleeptimer_get_timer_time_remaining_def Let_def)
qed

text \<open>
  C5. \<^verbatim>\<open>sl_sleeptimer_get_timer_time_remaining\<close> on a handle that is not on the list
  returns NotReady, as the lemma above shows for every well-formed list, but it has
  written through the output parameter by then: the cell holds the handle's own stale
  delta plus all the deltas of the list. In the scenario, the handle at address 48 was
  never started and the caller's cell holds 12345 before the call; the call returns
  NotReady and leaves 10 in the cell.
\<close>

theorem time_remaining_writes_on_failure:
  "map_option (\<lambda>(st, out, s). (st, out))
     (sl_sleeptimer_get_timer_time_remaining 48 (Some 12345) demo_two)
     = Some (SL_STATUS_NOT_READY, Some 10)"
  by (simp add: demo_defs demo_query_defs)

subsection \<open>Starting with a zero timeout\<close>

lemma timer_list_cong:
  assumes "timer_list s xs" "timer_head s' = timer_head s"
    and "\<And>a. a \<in> set xs \<Longrightarrow> next (handles s' a) = next (handles s a)"
  shows "timer_list s' xs"
proof -
  have "dlist (handles s') (timer_head s) xs = dlist (handles s) (timer_head s) xs"
    by (rule dlist_next_cong) (rule assms(3))
  with assms(1,2) show ?thesis by (simp add: timer_list_def)
qed

lemma deltas_through_cong:
  "(\<And>a. delta (handles s' a) = delta (handles s a)) \<Longrightarrow>
   deltas_through s' xs H = deltas_through s xs H"
  by (simp add: deltas_through_def)

lemma set_comparator_frame [simp]:
  "handles (set_comparator_for_next_timer s) = handles s"
  "timer_head (set_comparator_for_next_timer s) = timer_head s"
  "invoked (set_comparator_for_next_timer s) = invoked s"
  "last_delta_update_count (set_comparator_for_next_timer s) = last_delta_update_count s"
  by (simp_all add: set_comparator_for_next_timer_def hal_defs Let_def)

lemma update_first_timer_delta_frame [simp]:
  "timer_head (update_first_timer_delta s) = timer_head s"
  "invoked (update_first_timer_delta s) = invoked s"
  "next (handles (update_first_timer_delta s) a) = next (handles s a)"
  "timeout_periodic (handles (update_first_timer_delta s) a) = timeout_periodic (handles s a)"
  "priority (handles (update_first_timer_delta s) a) = priority (handles s a)"
  "callback (handles (update_first_timer_delta s) a) = callback (handles s a)"
  by (simp_all add: update_first_timer_delta_def Let_def)


lemma passive_idle: "passive_callbacks idle_callbacks"
  by (simp add: passive_callbacks_def idle_callbacks_def)



subsection \<open>Order of the callbacks of one compare event\<close>

lemma expired_subset: "set (dl_expired t v) \<subseteq> fst ` set v"
proof (induction v arbitrary: t)
  case Nil
  then show ?case by simp
next
  case (Cons p v)
  obtain a d where p: "p = (a, d)" by (cases p)
  have "set (dl_expired (t - d) v) \<subseteq> fst ` set v" by (rule Cons.IH)
  then show ?case by (auto simp: p)
qed

lemma expired_distinct: "distinct (map fst v) \<Longrightarrow> distinct (dl_expired t v)"
proof (induction v arbitrary: t)
  case Nil
  then show ?case by simp
next
  case (Cons p v)
  obtain a d where p: "p = (a, d)" by (cases p)
  from Cons.prems have "a \<notin> fst ` set v" "distinct (map fst v)" by (simp_all add: p)
  with Cons.IH[of "t - d"] expired_subset[of "t - d" v] show ?case by (auto simp: p)
qed

lemma word_le_sub_swap: "(d::u32) \<le> t \<Longrightarrow> e \<le> t - d \<Longrightarrow> d \<le> t - e \<and> e \<le> t"
  by unat_arith

lemma expired_delta_le:
  "distinct (map fst v) \<Longrightarrow> (c, dc) \<in> set v \<Longrightarrow> c \<in> set (dl_expired t v) \<Longrightarrow> dc \<le> t"
proof (induction v arbitrary: t)
  case Nil
  then show ?case by simp
next
  case (Cons p v)
  obtain a d where p: "p = (a, d)" by (cases p)
  from Cons.prems(1) have dv: "a \<notin> fst ` set v" "distinct (map fst v)" by (simp_all add: p)
  from Cons.prems(3) have le: "d \<le> t" by (simp add: p split: if_splits)
  show ?case
  proof (cases "a = c")
    case True
    with Cons.prems(2) dv(1) have "d = dc" by (auto simp: p image_iff)
    with le show ?thesis by simp
  next
    case False
    with Cons.prems le have "(c, dc) \<in> set v" "c \<in> set (dl_expired (t - d) v)"
      by (simp_all add: p)
    with Cons.IH[OF dv(2)] have "dc \<le> t - d" by blast
    with le show ?thesis using word_le_sub_swap by blast
  qed
qed

lemma filter_fst_absent: "c \<notin> fst ` set v \<Longrightarrow> filter (\<lambda>p. fst p \<noteq> c) v = v"
  by (induction v) auto

lemma filter_absent: "c \<notin> set xs \<Longrightarrow> filter (\<lambda>a. a \<noteq> c) xs = xs"
  by (induction xs) auto

lemma expired_remove:
  "distinct (map fst v) \<Longrightarrow> (c, dc) \<in> set v \<Longrightarrow> c \<in> set (dl_expired t v) \<Longrightarrow>
   dl_expired (t - dc) (filter (\<lambda>p. fst p \<noteq> c) v) = filter (\<lambda>a. a \<noteq> c) (dl_expired t v)"
proof (induction v arbitrary: t)
  case Nil
  then show ?case by simp
next
  case (Cons p v)
  obtain a d where p: "p = (a, d)" by (cases p)
  from Cons.prems(1) have dv: "a \<notin> fst ` set v" "distinct (map fst v)" by (simp_all add: p)
  from Cons.prems(3) have le: "d \<le> t" by (simp add: p split: if_splits)
  show ?case
  proof (cases "a = c")
    case True
    with Cons.prems(2) dv(1) have d: "d = dc" by (auto simp: p image_iff)
    have "c \<notin> set (dl_expired (t - d) v)"
      using expired_subset[of "t - d" v] dv(1) True by auto
    then show ?thesis
      using True dv(1) le d by (simp add: p filter_fst_absent filter_absent)
  next
    case False
    with Cons.prems le have m: "(c, dc) \<in> set v" "c \<in> set (dl_expired (t - d) v)"
      by (simp_all add: p)
    from expired_delta_le[OF dv(2) m] have "dc \<le> t - d" .
    with le have le2: "d \<le> t - dc" using word_le_sub_swap by blast
    have "dl_expired (t - d - dc) (filter (\<lambda>p. fst p \<noteq> c) v)
            = filter (\<lambda>a. a \<noteq> c) (dl_expired (t - d) v)"
      using Cons.IH[OF dv(2) m] .
    moreover have e: "t - dc - d = t - d - dc" by simp
    ultimately show ?thesis
      using False le le2 by (simp add: p e)
  qed
qed

lemma word_ins_1: "\<not> (d::u32) \<le> T \<Longrightarrow> T \<le> t \<Longrightarrow> (d - T \<le> t - T) = (d \<le> t)"
  by unat_arith

lemma word_ins_2: "\<not> (d::u32) \<le> T \<Longrightarrow> \<not> T \<le> t \<Longrightarrow> \<not> d \<le> t"
  by unat_arith

lemma expired_insert:
  "c \<notin> fst ` set v \<Longrightarrow>
   filter (\<lambda>a. a \<noteq> c) (dl_expired t (dl_insert c T v)) = dl_expired t v"
proof (induction v arbitrary: t T)
  case Nil
  then show ?case by simp
next
  case (Cons p v)
  obtain a d where p: "p = (a, d)" by (cases p)
  from Cons.prems have n: "a \<noteq> c" "c \<notin> fst ` set v" by (auto simp: p)
  show ?case
  proof (cases "d \<le> T")
    case True
    with Cons.IH[OF n(2)] n(1) show ?thesis by (simp add: p)
  next
    case False
    have c: "c \<notin> set (dl_expired (t - d) v)"
      using expired_subset[of "t - d" v] n(2) by auto
    show ?thesis
    proof (cases "T \<le> t")
      case True
      have "t - T - (d - T) = t - d" by simp
      with False True n(1) c show ?thesis
        by (simp add: p word_ins_1 filter_absent)
    next
      case f: False
      with False have "\<not> d \<le> t" by (rule word_ins_2)
      with False f show ?thesis by (simp add: p)
    qed
  qed
qed

lemma word_late: "(d::u32) \<le> t \<Longrightarrow> t < T \<Longrightarrow> t - d < T - d"
  by unat_arith

lemma expired_insert_late:
  "t < T \<Longrightarrow> dl_expired t (dl_insert c T v) = dl_expired t v"
proof (induction v arbitrary: t T)
  case Nil
  then show ?case by (simp add: not_le)
next
  case (Cons p v)
  obtain a d where p: "p = (a, d)" by (cases p)
  show ?case
  proof (cases "d \<le> T")
    case True
    show ?thesis
    proof (cases "d \<le> t")
      case le: True
      from word_late[OF le Cons.prems] have "t - d < T - d" .
      from Cons.IH[OF this] show ?thesis using True le by (simp add: p)
    next
      case False
      then show ?thesis using True by (simp add: p)
    qed
  next
    case False
    then have nd: "\<not> d \<le> t" using Cons.prems by simp
    have nT: "\<not> T \<le> t" using Cons.prems by simp
    show ?thesis using False nd nT by (simp add: p)
  qed
qed

lemma sort_key_pick:
  "\<forall>u \<in> set us. f p < f u \<Longrightarrow> \<forall>w \<in> set ws. f p \<le> f w \<Longrightarrow>
   sort_key f (us @ p # ws) = p # sort_key f (us @ ws)"
proof (induction us)
  case Nil
  then have "\<forall>x \<in> set (sort_key f ws). f p \<le> f x" by simp
  then show ?case by (simp add: insort_is_Cons)
next
  case (Cons u us)
  then have "sort_key f (us @ p # ws) = p # sort_key f (us @ ws)" by simp
  moreover have "\<not> f u \<le> f p" using Cons.prems(1) by (simp add: not_le)
  ultimately show ?case by simp
qed

lemma filter_split_distinct:
  "distinct (us @ c # ws) \<Longrightarrow> filter (\<lambda>a. a \<noteq> c) (us @ c # ws) = us @ ws"
  by (simp add: filter_absent)

lemma pick_spec:
  "\<exists>us ws. c0 # E = us @ dl_pick pr c0 E # ws
      \<and> (\<forall>u \<in> set us. pr (dl_pick pr c0 E) < pr u)
      \<and> (\<forall>w \<in> set ws. pr (dl_pick pr c0 E) \<le> pr w)"
proof (induction E arbitrary: c0)
  case Nil
  have "[c0] = [] @ dl_pick pr c0 [] # []" by simp
  then show ?case by fastforce
next
  case (Cons t ts)
  show ?case
  proof (cases "pr c0 > pr t")
    case True
    from Cons.IH[of t] obtain us ws where
      e: "t # ts = us @ dl_pick pr t ts # ws"
      and u: "\<forall>u \<in> set us. pr (dl_pick pr t ts) < pr u"
      and w: "\<forall>w \<in> set ws. pr (dl_pick pr t ts) \<le> pr w" by blast
    have "pr (dl_pick pr t ts) \<le> pr t"
      using e u w by (cases us) auto
    with True have lt: "pr (dl_pick pr t ts) < pr c0" by simp
    have p: "dl_pick pr c0 (t # ts) = dl_pick pr t ts"
      using True by simp
    have "c0 # t # ts = (c0 # us) @ dl_pick pr c0 (t # ts) # ws
          \<and> (\<forall>u \<in> set (c0 # us). pr (dl_pick pr c0 (t # ts)) < pr u)
          \<and> (\<forall>w \<in> set ws. pr (dl_pick pr c0 (t # ts)) \<le> pr w)"
      unfolding p using e u w lt by simp
    then show ?thesis by blast
  next
    case False
    from Cons.IH[of c0] obtain us ws where
      e: "c0 # ts = us @ dl_pick pr c0 ts # ws"
      and u: "\<forall>u \<in> set us. pr (dl_pick pr c0 ts) < pr u"
      and w: "\<forall>w \<in> set ws. pr (dl_pick pr c0 ts) \<le> pr w" by blast
    have p: "dl_pick pr c0 (t # ts) = dl_pick pr c0 ts"
      using False by simp
    show ?thesis
    proof (cases us)
      case Nil
      with e have "c0 # ts = dl_pick pr c0 ts # ws" by (simp only: append_Nil)
      then have q: "dl_pick pr c0 ts = c0" "ws = ts" by (metis list.inject)+
      have "c0 # t # ts = [] @ dl_pick pr c0 (t # ts) # (t # ts)
          \<and> (\<forall>u \<in> set []. pr (dl_pick pr c0 (t # ts)) < pr u)
          \<and> (\<forall>w \<in> set (t # ts). pr (dl_pick pr c0 (t # ts)) \<le> pr w)"
        unfolding p using q w False by (simp add: not_less)
      then show ?thesis by blast
    next
      case (Cons u0 us')
      with e have "c0 # ts = u0 # us' @ dl_pick pr c0 ts # ws" by (simp only: append_Cons)
      then have c0: "u0 = c0" and ts: "ts = us' @ dl_pick pr c0 ts # ws"
        by (metis list.inject)+
      from u Cons c0 have lt: "pr (dl_pick pr c0 ts) < pr c0" by simp
      with False have lt2: "pr (dl_pick pr c0 ts) < pr t" by simp
      have "c0 # t # ts = (c0 # t # us') @ dl_pick pr c0 (t # ts) # ws"
        unfolding p using ts by simp
      moreover have "\<forall>u \<in> set (c0 # t # us'). pr (dl_pick pr c0 (t # ts)) < pr u"
        unfolding p using u Cons lt lt2 by simp
      moreover have "\<forall>w \<in> set ws. pr (dl_pick pr c0 (t # ts)) \<le> pr w"
        unfolding p using w by simp
      ultimately show ?thesis by blast
    qed
  qed
qed

lemma priority_walk_spec:
  "dlist (handles s) temp zs \<Longrightarrow>
   priority_walk (handles s) c temp t
     = Some (dl_pick (\<lambda>a. priority (handles s a)) c (dl_expired t (dl_view s zs)))"
proof (induction zs arbitrary: c temp t)
  case Nil
  then show ?case by (subst priority_walk.simps) simp
next
  case (Cons z r)
  from Cons.prems have z: "temp = z" "z \<noteq> 0" and r: "dlist (handles s) (next (handles s z)) r"
    by auto
  show ?case
  proof (cases "delta (handles s z) \<le> t")
    case True
    then have "priority_walk (handles s) c temp t
        = priority_walk (handles s)
            (if priority (handles s c) > priority (handles s z) then z else c)
            (next (handles s z)) (t - delta (handles s z))"
      using z by (subst priority_walk.simps) simp
    then show ?thesis
      using True by (simp add: Cons.IH[OF r])
  next
    case False
    then show ?thesis
      using z by (subst priority_walk.simps) simp
  qed
qed

lemma bump_zero [simp]: "dl_bump 0 v = v"
proof (cases v)
  case Nil
  then show ?thesis by simp
next
  case (Cons p r)
  obtain a d where "p = (a, d)" by (cases p)
  with Cons show ?thesis by simp
qed

lemma view_filter: "dl_view s (filter P xs) = filter (\<lambda>p. P (fst p)) (dl_view s xs)"
  by (induction xs) simp_all

lemma remove_zeroed:
  assumes "distinct xs" "c \<in> set xs"
  shows "dl_remove c (dl_view (set_delta c 0 s) xs) = dl_view s (filter (\<lambda>a. a \<noteq> c) xs)"
proof -
  from assms(2) obtain ys zs where sp: "xs = ys @ c # zs" and cy: "c \<notin> set ys"
    using split_list_first by fast
  with assms(1) have cz: "c \<notin> set zs" by simp
  have "dl_remove c (dl_view (set_delta c 0 s) (ys @ c # zs))
          = dl_view (set_delta c 0 s) ys
            @ dl_bump (delta (handles (set_delta c 0 s) c)) (dl_view (set_delta c 0 s) zs)"
    using cy by (rule rem_view_split)
  also have "\<dots> = dl_view s ys @ dl_view s zs"
    using cy cz by simp
  also have "\<dots> = dl_view s (filter (\<lambda>a. a \<noteq> c) (ys @ c # zs))"
    using cy cz by (simp add: filter_absent)
  finally show ?thesis by (simp only: sp)
qed

lemma dispatch_body_spec:
  assumes l: "timer_list s xs" and cb: "passive_callbacks cbs" "instant_callbacks cbs"
    and g: "timer_head s \<noteq> 0" "delta (handles s (timer_head s)) \<le> dt"
    and c: "c = dl_pick (\<lambda>a. priority (handles s a)) (timer_head s) (dl_expired dt (dl_view s xs))"
  shows "c \<in> set (dl_expired dt (dl_view s xs))
     \<and> (\<exists>s' xs'. dispatch_body cbs dt (hal_counter s) s
                    = Some (dt - delta (handles s c), hal_counter s, s')
          \<and> timer_list s' xs'
          \<and> filter (\<lambda>a. a \<noteq> c) (dl_expired (dt - delta (handles s c)) (dl_view s' xs'))
              = filter (\<lambda>a. a \<noteq> c) (dl_expired dt (dl_view s xs))
          \<and> invoked s' = invoked s @ (if callback (handles s c) \<noteq> 0 then [c] else [])
          \<and> hal_counter s' = hal_counter s
          \<and> (\<forall>a. priority (handles s' a) = priority (handles s a)
                 \<and> callback (handles s' a) = callback (handles s a)
                 \<and> timeout_periodic (handles s' a) = timeout_periodic (handles s a))
          \<and> delta (handles s c) \<le> dt
          \<and> (timeout_periodic (handles s c) = 0
               \<or> dt - delta (handles s c) < timeout_periodic (handles s c)
             \<longrightarrow> dl_expired (dt - delta (handles s c)) (dl_view s' xs')
                   = filter (\<lambda>a. a \<noteq> c) (dl_expired dt (dl_view s xs))))"
proof -
  let ?E = "dl_expired dt (dl_view s xs)"
  let ?pr = "\<lambda>a. priority (handles s a)"
  from l g(1) obtain x xs0 where xs: "xs = x # xs0" and hd: "timer_head s = x"
    by (cases xs) (auto simp: timer_list_def)
  have E: "?E = x # dl_expired (dt - delta (handles s x)) (dl_view s xs0)"
    using g(2) by (simp add: xs hd)
  from pick_spec[of "timer_head s" ?E ?pr] obtain us ws where
    "timer_head s # ?E = us @ c # ws" unfolding c by blast
  then have "c \<in> set (timer_head s # ?E)" by (metis in_set_conv_decomp)
  then have cE: "c \<in> set ?E" using E hd by auto
  have dx: "distinct xs" using l by (rule timer_list_distinct)
  have cx: "c \<in> set xs"
    using cE expired_subset[of dt "dl_view s xs"] by auto
  have c0: "c \<noteq> 0" using l cx by (rule timer_list_nonzero)
  define dc where "dc = delta (handles s c)"
  have cin: "(c, dc) \<in> set (dl_view s xs)"
    using cx by (auto simp: dl_view_def dc_def)
  define s1 where "s1 = s\<lparr>last_delta_update_count := hal_counter s\<rparr>"
  have w: "priority_walk (handles s1) (timer_head s1) (timer_head s1) dt = Some c"
    using l priority_walk_spec[of s "timer_head s" xs "timer_head s" dt]
    by (simp add: s1_def timer_list_def c)
  define s2 where "s2 = set_delta c 0 s1"
  have l2: "timer_list s2 xs"
    using l by (rule timer_list_cong) (simp_all add: s2_def s1_def)
  let ?xs2 = "filter (\<lambda>a. a \<noteq> c) xs"
  have v2: "dl_remove c (dl_view s2 xs) = dl_view s ?xs2"
  proof -
    have "dl_view s2 xs = dl_view (set_delta c 0 s) xs"
      by (simp add: dl_view_def s2_def s1_def)
    then show ?thesis using remove_zeroed[OF dx cx] by simp
  qed
  from remove_refines[OF l2 c0]
  obtain s3 where r3: "delta_list_remove_timer c s2 = Some (SL_STATUS_OK, s3)"
    and l3: "timer_list s3 ?xs2" and v3: "dl_view s3 ?xs2 = dl_view s ?xs2"
    and f3: "links_only s2 s3"
    using cx unfolding v2 by auto
  define per where "per = timeout_periodic (handles s3 c)"
  have "\<exists>s4 xs4. (if per \<noteq> 0 then delta_list_insert_timer c per s3 else Some s3) = Some s4
          \<and> timer_list s4 xs4 \<and> links_only s3 s4
          \<and> filter (\<lambda>a. a \<noteq> c) (dl_expired (dt - dc) (dl_view s4 xs4))
              = dl_expired (dt - dc) (dl_view s ?xs2)
          \<and> (per = 0 \<or> dt - dc < per
               \<longrightarrow> dl_expired (dt - dc) (dl_view s4 xs4) = dl_expired (dt - dc) (dl_view s ?xs2))"
  proof (cases "per = 0")
    case True
    have "c \<notin> set (dl_expired (dt - dc) (dl_view s ?xs2))"
      using expired_subset[of "dt - dc" "dl_view s ?xs2"] by auto
    then have "filter (\<lambda>a. a \<noteq> c) (dl_expired (dt - dc) (dl_view s3 ?xs2))
          = dl_expired (dt - dc) (dl_view s ?xs2)"
      unfolding v3 by (rule filter_absent)
    with True l3 show ?thesis by (intro exI[of _ s3] exI[of _ ?xs2]) (simp add: v3)
  next
    case False
    have cn: "c \<notin> set ?xs2" by simp
    from insert_refines[OF l3 c0 cn, of per]
    obtain s4 where r4: "delta_list_insert_timer c per s3 = Some s4"
      "timer_list s4 (map fst (dl_insert c per (dl_view s3 ?xs2)))"
      "dl_view s4 (map fst (dl_insert c per (dl_view s3 ?xs2))) = dl_insert c per (dl_view s3 ?xs2)"
      "links_only s3 s4" by blast
    have "filter (\<lambda>a. a \<noteq> c) (dl_expired (dt - dc) (dl_insert c per (dl_view s ?xs2)))
            = dl_expired (dt - dc) (dl_view s ?xs2)"
      by (rule expired_insert) simp
    moreover have "dt - dc < per
        \<longrightarrow> dl_expired (dt - dc) (dl_insert c per (dl_view s ?xs2))
              = dl_expired (dt - dc) (dl_view s ?xs2)"
      by (simp add: expired_insert_late)
    ultimately show ?thesis using r4 False
      unfolding v3
      by (intro exI[of _ s4] exI[of _ "map fst (dl_insert c per (dl_view s ?xs2))"]) simp
  qed
  then obtain s4 xs4 where
    r4: "(if per \<noteq> 0 then delta_list_insert_timer c per s3 else Some s3) = Some s4"
    and l4: "timer_list s4 xs4" and f4: "links_only s3 s4"
    and e4: "filter (\<lambda>a. a \<noteq> c) (dl_expired (dt - dc) (dl_view s4 xs4))
              = dl_expired (dt - dc) (dl_view s ?xs2)"
    and x4: "per = 0 \<or> dt - dc < per
               \<longrightarrow> dl_expired (dt - dc) (dl_view s4 xs4) = dl_expired (dt - dc) (dl_view s ?xs2)"
    by blast
  have er: "dl_expired (dt - dc) (dl_view s ?xs2) = filter (\<lambda>a. a \<noteq> c) ?E"
    unfolding view_filter
    by (rule expired_remove) (use dx cin cE in simp_all)
  have f24: "links_only s2 s4"
    using f3 f4 by (rule links_only_trans)
  have fld2: "\<And>a. priority (handles s2 a) = priority (handles s a)"
    "\<And>a. callback (handles s2 a) = callback (handles s a)"
    "invoked s2 = invoked s" "hal_counter s2 = hal_counter s"
    "\<And>a. timeout_periodic (handles s2 a) = timeout_periodic (handles s a)"
    by (simp_all add: s2_def s1_def)
  have fld4: "\<And>a. priority (handles s4 a) = priority (handles s a)"
    "\<And>a. callback (handles s4 a) = callback (handles s a)"
    "invoked s4 = invoked s" "hal_counter s4 = hal_counter s"
    "\<And>a. timeout_periodic (handles s4 a) = timeout_periodic (handles s a)"
    using f24 fld2 by (simp_all add: links_only_def)
  have per_s: "per = timeout_periodic (handles s c)"
    using f3 fld2(5) by (simp add: per_def links_only_def)
  have dcle: "dc \<le> dt"
    using expired_delta_le[of "dl_view s xs" c dc dt] dx cin cE by simp
  define s5 where "s5 = (if callback (handles s4 c) \<noteq> 0 then invoke cbs c s4 else s4)"
  have h5: "handles s5 = handles s4" "timer_head s5 = timer_head s4"
    "hal_counter s5 = hal_counter s"
    "invoked s5 = invoked s @ (if callback (handles s c) \<noteq> 0 then [c] else [])"
    using cb fld4
    by (simp_all add: s5_def invoke_def passive_callbacks_def instant_callbacks_def)
  have l5: "timer_list s5 xs4"
    using l4 by (rule timer_list_cong) (simp_all add: h5)
  have v5: "dl_view s5 xs4 = dl_view s4 xs4"
    by (simp add: dl_view_def h5)
  have d1: "delta (handles s1 c) = dc"
    by (simp add: s1_def dc_def)
  have body: "dispatch_body cbs dt (hal_counter s) s = Some (dt - dc, hal_counter s, s5)"
    apply (simp only: dispatch_body_def Let_def)
    apply (simp only: s1_def[symmetric])
    apply (simp only: w Option.bind.simps d1 s2_def[symmetric] r3 prod.case
        per_def[symmetric] r4 s5_def[symmetric])
    apply (simp add: sleeptimer_hal_get_counter_def h5)
    done
  have e5: "filter (\<lambda>a. a \<noteq> c) (dl_expired (dt - delta (handles s c)) (dl_view s5 xs4))
              = filter (\<lambda>a. a \<noteq> c) (dl_expired dt (dl_view s xs))"
    unfolding v5 using e4 er by (simp only: dc_def)
  have p5: "\<forall>a. priority (handles s5 a) = priority (handles s a)
                 \<and> callback (handles s5 a) = callback (handles s a)
                 \<and> timeout_periodic (handles s5 a) = timeout_periodic (handles s a)"
    using fld4 by (simp add: h5)
  have x5: "timeout_periodic (handles s c) = 0
               \<or> dt - delta (handles s c) < timeout_periodic (handles s c)
             \<longrightarrow> dl_expired (dt - delta (handles s c)) (dl_view s5 xs4)
                   = filter (\<lambda>a. a \<noteq> c) (dl_expired dt (dl_view s xs))"
    unfolding v5 using x4 er by (simp only: dc_def per_s)
  have d5: "delta (handles s c) \<le> dt" using dcle by (simp only: dc_def)
  have "dispatch_body cbs dt (hal_counter s) s
                    = Some (dt - delta (handles s c), hal_counter s, s5)
          \<and> timer_list s5 xs4
          \<and> filter (\<lambda>a. a \<noteq> c) (dl_expired (dt - delta (handles s c)) (dl_view s5 xs4))
              = filter (\<lambda>a. a \<noteq> c) (dl_expired dt (dl_view s xs))
          \<and> invoked s5 = invoked s @ (if callback (handles s c) \<noteq> 0 then [c] else [])
          \<and> hal_counter s5 = hal_counter s
          \<and> (\<forall>a. priority (handles s5 a) = priority (handles s a)
                 \<and> callback (handles s5 a) = callback (handles s a)
                 \<and> timeout_periodic (handles s5 a) = timeout_periodic (handles s a))
          \<and> delta (handles s c) \<le> dt
          \<and> (timeout_periodic (handles s c) = 0
               \<or> dt - delta (handles s c) < timeout_periodic (handles s c)
             \<longrightarrow> dl_expired (dt - delta (handles s c)) (dl_view s5 xs4)
                   = filter (\<lambda>a. a \<noteq> c) (dl_expired dt (dl_view s xs)))"
    using body l5 e5 h5(3,4) p5 d5 x5 unfolding dc_def by (intro conjI)
  with cE show ?thesis by blast
qed

lemma pick_hd:
  assumes "E = c0 # E'"
  shows "\<exists>us ws. E = us @ dl_pick pr c0 E # ws
      \<and> (\<forall>u \<in> set us. pr (dl_pick pr c0 E) < pr u)
      \<and> (\<forall>w \<in> set ws. pr (dl_pick pr c0 E) \<le> pr w)"
proof -
  define p where "p = dl_pick pr c0 E"
  from pick_spec[of c0 E pr] obtain us ws where
    e: "c0 # E = us @ p # ws" and u: "\<forall>u \<in> set us. pr p < pr u"
    and w: "\<forall>w \<in> set ws. pr p \<le> pr w"
    unfolding p_def by blast
  have "\<exists>us ws. E = us @ p # ws \<and> (\<forall>u \<in> set us. pr p < pr u) \<and> (\<forall>w \<in> set ws. pr p \<le> pr w)"
  proof (cases us)
    case Nil
    with e have pc: "p = c0" and ws: "ws = E" by simp_all
    have "E = [] @ p # E'" using assms pc by simp
    moreover have "\<forall>w \<in> set E'. pr p \<le> pr w" using w assms unfolding ws by simp
    ultimately have "E = [] @ p # E' \<and> (\<forall>u \<in> set []. pr p < pr u) \<and> (\<forall>w \<in> set E'. pr p \<le> pr w)"
      by simp
    then show ?thesis by blast
  next
    case (Cons u0 us')
    with e have "E = us' @ p # ws" by simp
    moreover have "\<forall>u \<in> set us'. pr p < pr u" using u Cons by simp
    ultimately have "E = us' @ p # ws \<and> (\<forall>u \<in> set us'. pr p < pr u) \<and> (\<forall>w \<in> set ws. pr p \<le> pr w)"
      using w by simp
    then show ?thesis by blast
  qed
  then show ?thesis unfolding p_def .
qed

lemma before_filter_aux:
  "filter P E1 = F @ a # G \<Longrightarrow> b \<in> set G \<Longrightarrow> \<exists>us1 ws1. E1 = us1 @ a # ws1 \<and> b \<in> set ws1"
proof (induction E1 arbitrary: F)
  case Nil
  then show ?case by simp
next
  case (Cons x E1)
  show ?case
  proof (cases "P x")
    case False
    with Cons.prems have "filter P E1 = F @ a # G" by simp
    from Cons.IH[OF this Cons.prems(2)] obtain us1 ws1 where
      "E1 = us1 @ a # ws1" "b \<in> set ws1" by blast
    then have "x # E1 = (x # us1) @ a # ws1 \<and> b \<in> set ws1" by simp
    then show ?thesis by blast
  next
    case True
    with Cons.prems have f: "x # filter P E1 = F @ a # G" by simp
    show ?thesis
    proof (cases F)
      case Nil
      with f have "x = a" "filter P E1 = G" by simp_all
      with Cons.prems(2) have "x # E1 = [] @ a # E1 \<and> b \<in> set E1" by auto
      then show ?thesis by blast
    next
      case (Cons f0 F')
      with f have "filter P E1 = F' @ a # G" by simp
      from Cons.IH[OF this Cons.prems(2)] obtain us1 ws1 where
        "E1 = us1 @ a # ws1" "b \<in> set ws1" by blast
      then have "x # E1 = (x # us1) @ a # ws1 \<and> b \<in> set ws1" by simp
      then show ?thesis by blast
    qed
  qed
qed

lemma before_filter:
  assumes f: "filter P E1 = filter P E" and e: "E = us @ a # ws" and b: "b \<in> set ws"
    and p: "P a" "P b"
  shows "\<exists>us1 ws1. E1 = us1 @ a # ws1 \<and> b \<in> set ws1"
proof -
  have "filter P E1 = filter P us @ a # filter P ws" using f e p by simp
  moreover have "b \<in> set (filter P ws)" using b p by simp
  ultimately show ?thesis by (rule before_filter_aux)
qed

lemma takeWhile_upto: "c \<notin> set us \<Longrightarrow> takeWhile (\<lambda>x. x \<noteq> c) (us @ c # ws) = us"
  by (induction us) auto

lemma before_in_takeWhile:
  "distinct (us @ a # ws) \<Longrightarrow> c \<in> set ws \<Longrightarrow> a \<in> set (takeWhile (\<lambda>x. x \<noteq> c) (us @ a # ws))"
  by (induction us) auto

lemma takeWhile_filter_neq:
  "Q a \<Longrightarrow> takeWhile (\<lambda>x. x \<noteq> a) (filter Q ds) = filter Q (takeWhile (\<lambda>x. x \<noteq> a) ds)"
  by (induction ds) auto


lemma expired_empty:
  assumes "timer_list s xs"
    and "\<not> (timer_head s \<noteq> 0 \<and> dt \<ge> delta (handles s (timer_head s)))"
  shows "dl_expired dt (dl_view s xs) = []"
proof (cases xs)
  case Nil
  then show ?thesis by simp
next
  case (Cons x xs0)
  with assms(1) have "timer_head s = x" "x \<noteq> 0" by (simp_all add: timer_list_def)
  with assms(2) show ?thesis by (simp add: Cons)
qed

lemma dispatch_loop_spec:
  assumes cb: "passive_callbacks cbs" "instant_callbacks cbs"
  shows "timer_list s xs \<Longrightarrow>
    \<exists>fin dt' s' ds. dispatch_loop cbs n dt (hal_counter s) s = Some (fin, dt', hal_counter s, s')
     \<and> invoked s' = invoked s @ filter (\<lambda>a. callback (handles s a) \<noteq> 0) ds
     \<and> set ds \<subseteq> set (dl_expired dt (dl_view s xs))
     \<and> sorted_wrt (\<lambda>a b. priority (handles s a) \<le> priority (handles s b)) ds
     \<and> (\<forall>a b us ws. dl_expired dt (dl_view s xs) = us @ a # ws \<and> b \<in> set ws
            \<and> priority (handles s a) = priority (handles s b)
          \<longrightarrow> b \<notin> set (takeWhile (\<lambda>x. x \<noteq> a) ds))
     \<and> (fin \<longrightarrow> set (dl_expired dt (dl_view s xs)) \<subseteq> set ds)"
proof (induction n arbitrary: s xs dt)
  case 0
  have "dispatch_loop cbs 0 dt (hal_counter s) s
          = Some (\<not> (timer_head s \<noteq> 0 \<and> dt \<ge> delta (handles s (timer_head s))), dt, hal_counter s, s)
      \<and> invoked s = invoked s @ filter (\<lambda>a. callback (handles s a) \<noteq> 0) []
      \<and> set [] \<subseteq> set (dl_expired dt (dl_view s xs))
      \<and> sorted_wrt (\<lambda>a b. priority (handles s a) \<le> priority (handles s b)) []
      \<and> (\<forall>a b us ws. dl_expired dt (dl_view s xs) = us @ a # ws \<and> b \<in> set ws
            \<and> priority (handles s a) = priority (handles s b)
          \<longrightarrow> b \<notin> set (takeWhile (\<lambda>x. x \<noteq> a) []))
      \<and> (\<not> (timer_head s \<noteq> 0 \<and> dt \<ge> delta (handles s (timer_head s)))
            \<longrightarrow> set (dl_expired dt (dl_view s xs)) \<subseteq> set [])"
    using expired_empty[OF 0] by simp
  then show ?case by blast
next
  case (Suc n)
  let ?E = "dl_expired dt (dl_view s xs)"
  let ?pr = "\<lambda>a. priority (handles s a)"
  show ?case
  proof (cases "timer_head s \<noteq> 0 \<and> dt \<ge> delta (handles s (timer_head s))")
    case False
    then have "dispatch_loop cbs (Suc n) dt (hal_counter s) s = Some (True, dt, hal_counter s, s)
      \<and> invoked s = invoked s @ filter (\<lambda>a. callback (handles s a) \<noteq> 0) []
      \<and> set [] \<subseteq> set ?E
      \<and> sorted_wrt (\<lambda>a b. ?pr a \<le> ?pr b) []
      \<and> (\<forall>a b us ws. ?E = us @ a # ws \<and> b \<in> set ws \<and> ?pr a = ?pr b
          \<longrightarrow> b \<notin> set (takeWhile (\<lambda>x. x \<noteq> a) []))
      \<and> (True \<longrightarrow> set ?E \<subseteq> set [])"
      using expired_empty[OF Suc.prems False] by auto
    then show ?thesis by blast
  next
    case True
    define c where "c = dl_pick ?pr (timer_head s) ?E"
    from dispatch_body_spec[OF Suc.prems cb _ _ c_def] True
    obtain s1 xs1 where cE: "c \<in> set ?E"
      and body: "dispatch_body cbs dt (hal_counter s) s
                    = Some (dt - delta (handles s c), hal_counter s, s1)"
      and l1: "timer_list s1 xs1"
      and e1: "filter (\<lambda>a. a \<noteq> c) (dl_expired (dt - delta (handles s c)) (dl_view s1 xs1))
              = filter (\<lambda>a. a \<noteq> c) ?E"
      and i1: "invoked s1 = invoked s @ (if callback (handles s c) \<noteq> 0 then [c] else [])"
      and h1: "hal_counter s1 = hal_counter s"
      and p0: "\<forall>a. priority (handles s1 a) = priority (handles s a)
                 \<and> callback (handles s1 a) = callback (handles s a)
                 \<and> timeout_periodic (handles s1 a) = timeout_periodic (handles s a)"
      by (elim exE conjE) blast
    have p1: "\<And>a. priority (handles s1 a) = priority (handles s a)"
              "\<And>a. callback (handles s1 a) = callback (handles s a)"
      using p0 by simp_all
    define dt1 where "dt1 = dt - delta (handles s c)"
    define E1 where "E1 = dl_expired dt1 (dl_view s1 xs1)"
    from Suc.IH[OF l1, of dt1] obtain fin dt' s' ds where
      run: "dispatch_loop cbs n dt1 (hal_counter s) s1 = Some (fin, dt', hal_counter s, s')"
      and i2: "invoked s' = invoked s1 @ filter (\<lambda>a. callback (handles s a) \<noteq> 0) ds"
      and sub: "set ds \<subseteq> set E1"
      and srt: "sorted_wrt (\<lambda>a b. ?pr a \<le> ?pr b) ds"
      and tie0: "\<forall>a b us ws. E1 = us @ a # ws \<and> b \<in> set ws \<and> ?pr a = ?pr b
                  \<longrightarrow> b \<notin> set (takeWhile (\<lambda>x. x \<noteq> a) ds)"
      and all0: "fin \<longrightarrow> set E1 \<subseteq> set ds"
      unfolding h1 p1 E1_def by (elim exE conjE) blast
    have tie: "\<And>a b us ws. E1 = us @ a # ws \<Longrightarrow> b \<in> set ws \<Longrightarrow> ?pr a = ?pr b
                  \<Longrightarrow> b \<notin> set (takeWhile (\<lambda>x. x \<noteq> a) ds)"
      using tie0 by blast
    have e1': "filter (\<lambda>a. a \<noteq> c) E1 = filter (\<lambda>a. a \<noteq> c) ?E"
      using e1 by (simp only: E1_def dt1_def)
    from Suc.prems True obtain x xs0 where xs: "xs = x # xs0" and hd: "timer_head s = x"
      by (cases xs) (auto simp: timer_list_def)
    have E: "?E = timer_head s # dl_expired (dt - delta (handles s x)) (dl_view s xs0)"
      using True by (simp add: xs hd)
    from pick_hd[OF E, of ?pr] obtain pu pw where
      pk: "?E = pu @ c # pw" "\<forall>u \<in> set pu. ?pr c < ?pr u" "\<forall>w \<in> set pw. ?pr c \<le> ?pr w"
      unfolding c_def[symmetric] by blast
    have dE: "distinct ?E"
      using timer_list_distinct[OF Suc.prems] by (intro expired_distinct) (simp add: map_fst_view)
    have min: "\<And>e. e \<in> set ?E \<Longrightarrow> ?pr c \<le> ?pr e"
    proof -
      fix e assume "e \<in> set ?E"
      then have "e \<in> set pu \<or> e = c \<or> e \<in> set pw" by (subst (asm) pk(1)) auto
      then show "?pr c \<le> ?pr e" using pk(2,3) by (auto simp: less_imp_le)
    qed
    have sub1: "set E1 \<subseteq> set ?E"
    proof
      fix e assume e: "e \<in> set E1"
      show "e \<in> set ?E"
      proof (cases "e = c")
        case True
        then show ?thesis using cE by simp
      next
        case False
        with e have "e \<in> set (filter (\<lambda>a. a \<noteq> c) E1)" by simp
        then show ?thesis unfolding e1' by simp
      qed
    qed
    have loop: "dispatch_loop cbs (Suc n) dt (hal_counter s) s = Some (fin, dt', hal_counter s, s')"
      using True body run by (simp add: dt1_def)
    have inv: "invoked s' = invoked s @ filter (\<lambda>a. callback (handles s a) \<noteq> 0) (c # ds)"
      using i1 i2 by simp
    have subs: "set (c # ds) \<subseteq> set ?E"
      using cE sub sub1 by auto
    have sorted: "sorted_wrt (\<lambda>a b. ?pr a \<le> ?pr b) (c # ds)"
      using srt sub sub1 min by auto
    have ties: "\<forall>a b us ws. ?E = us @ a # ws \<and> b \<in> set ws \<and> ?pr a = ?pr b
          \<longrightarrow> b \<notin> set (takeWhile (\<lambda>x. x \<noteq> a) (c # ds))"
    proof (intro allI impI)
      fix a b us ws
      assume h: "?E = us @ a # ws \<and> b \<in> set ws \<and> ?pr a = ?pr b"
      then have ea: "?E = us @ a # ws" and b: "b \<in> set ws" and eq: "?pr a = ?pr b" by simp_all
      show "b \<notin> set (takeWhile (\<lambda>x. x \<noteq> a) (c # ds))"
      proof (cases "c = a")
        case True
        then show ?thesis by simp
      next
        case False
        have bc: "b \<noteq> c"
        proof
          assume "b = c"
          have dpu: "distinct (pu @ c # pw)" using dE by (simp only: pk(1))
          have dus: "distinct (us @ a # ws)" using dE by (simp only: ea)
          have "takeWhile (\<lambda>x. x \<noteq> c) (pu @ c # pw) = pu"
            using dpu by (intro takeWhile_upto) simp
          moreover have "a \<in> set (takeWhile (\<lambda>x. x \<noteq> c) (us @ a # ws))"
            using dus b \<open>b = c\<close> by (intro before_in_takeWhile) simp_all
          moreover have "pu @ c # pw = us @ a # ws" using pk(1) ea by simp
          ultimately have "a \<in> set pu" by simp
          with pk(2) have "?pr c < ?pr a" by blast
          with eq \<open>b = c\<close> show False by simp
        qed
        from before_filter[OF e1' ea b] False bc obtain us1 ws1 where
          "E1 = us1 @ a # ws1" "b \<in> set ws1" by metis
        from tie[OF this eq] bc False show ?thesis by simp
      qed
    qed
    have alls: "fin \<longrightarrow> set ?E \<subseteq> set (c # ds)"
    proof (intro impI subsetI)
      fix e assume f: fin and e: "e \<in> set ?E"
      show "e \<in> set (c # ds)"
      proof (cases "e = c")
        case True
        then show ?thesis by simp
      next
        case False
        with e have "e \<in> set (filter (\<lambda>a. a \<noteq> c) ?E)" by simp
        then have "e \<in> set E1" unfolding e1'[symmetric] by simp
        with all0 f show ?thesis by auto
      qed
    qed
    from loop inv subs sorted ties alls show ?thesis by blast
  qed
qed


lemma dispatch_loop_complete:
  assumes cb: "passive_callbacks cbs" "instant_callbacks cbs"
  shows "timer_list s xs \<Longrightarrow>
    \<forall>a \<in> set (dl_expired dt (dl_view s xs)).
       timeout_periodic (handles s a) = 0 \<or> dt < timeout_periodic (handles s a) \<Longrightarrow>
    length (dl_expired dt (dl_view s xs)) \<le> n \<Longrightarrow>
    \<exists>dt' s'. dispatch_loop cbs n dt (hal_counter s) s = Some (True, dt', hal_counter s, s')
     \<and> invoked s' = invoked s @ filter (\<lambda>a. callback (handles s a) \<noteq> 0)
                                   (sort_key (\<lambda>a. priority (handles s a))
                                      (dl_expired dt (dl_view s xs)))"
proof (induction n arbitrary: s xs dt)
  case 0
  then have e: "dl_expired dt (dl_view s xs) = []" by simp
  have "\<not> (timer_head s \<noteq> 0 \<and> dt \<ge> delta (handles s (timer_head s)))"
  proof
    assume t: "timer_head s \<noteq> 0 \<and> dt \<ge> delta (handles s (timer_head s))"
    with 0(1) obtain x xs0 where "xs = x # xs0" "timer_head s = x"
      by (cases xs) (auto simp: timer_list_def)
    with t e show False by simp
  qed
  then have "dispatch_loop cbs 0 dt (hal_counter s) s = Some (True, dt, hal_counter s, s)"
    by auto
  then show ?case by (simp add: e)
next
  case (Suc n)
  let ?E = "dl_expired dt (dl_view s xs)"
  let ?pr = "\<lambda>a. priority (handles s a)"
  let ?Q = "\<lambda>a. callback (handles s a) \<noteq> 0"
  show ?case
  proof (cases "timer_head s \<noteq> 0 \<and> dt \<ge> delta (handles s (timer_head s))")
    case False
    from expired_empty[OF Suc.prems(1) False] have e: "?E = []" .
    from False have "dispatch_loop cbs (Suc n) dt (hal_counter s) s
        = Some (True, dt, hal_counter s, s)" by auto
    then show ?thesis by (simp add: e)
  next
    case True
    define c where "c = dl_pick ?pr (timer_head s) ?E"
    define dt1 where "dt1 = dt - delta (handles s c)"
    from dispatch_body_spec[OF Suc.prems(1) cb _ _ c_def] True
    obtain s1 xs1 where cE: "c \<in> set ?E"
      and body: "dispatch_body cbs dt (hal_counter s) s = Some (dt1, hal_counter s, s1)"
      and l1: "timer_list s1 xs1"
      and i1: "invoked s1 = invoked s @ (if ?Q c then [c] else [])"
      and h1: "hal_counter s1 = hal_counter s"
      and p0: "\<forall>a. priority (handles s1 a) = priority (handles s a)
                 \<and> callback (handles s1 a) = callback (handles s a)
                 \<and> timeout_periodic (handles s1 a) = timeout_periodic (handles s a)"
      and dcle: "delta (handles s c) \<le> dt"
      and x1: "timeout_periodic (handles s c) = 0 \<or> dt1 < timeout_periodic (handles s c)
             \<longrightarrow> dl_expired dt1 (dl_view s1 xs1) = filter (\<lambda>a. a \<noteq> c) ?E"
      unfolding dt1_def by (elim exE conjE) blast
    have p1: "\<And>a. priority (handles s1 a) = priority (handles s a)"
              "\<And>a. callback (handles s1 a) = callback (handles s a)"
              "\<And>a. timeout_periodic (handles s1 a) = timeout_periodic (handles s a)"
      using p0 by simp_all
    have le1: "dt1 \<le> dt" unfolding dt1_def using dcle by unat_arith
    have "timeout_periodic (handles s c) = 0 \<or> dt < timeout_periodic (handles s c)"
      using Suc.prems(2) cE by blast
    then have "timeout_periodic (handles s c) = 0 \<or> dt1 < timeout_periodic (handles s c)"
      using le1 by auto
    with x1 have E1: "dl_expired dt1 (dl_view s1 xs1) = filter (\<lambda>a. a \<noteq> c) ?E" by blast
    from Suc.prems(1) True obtain x xs0 where xs: "xs = x # xs0" and hd: "timer_head s = x"
      by (cases xs) (auto simp: timer_list_def)
    have E: "?E = timer_head s # dl_expired (dt - delta (handles s x)) (dl_view s xs0)"
      using True by (simp add: xs hd)
    from pick_hd[OF E, of ?pr] obtain pu pw where
      pk: "?E = pu @ c # pw" "\<forall>u \<in> set pu. ?pr c < ?pr u" "\<forall>w \<in> set pw. ?pr c \<le> ?pr w"
      unfolding c_def[symmetric] by blast
    have dE: "distinct ?E"
      using timer_list_distinct[OF Suc.prems(1)] by (intro expired_distinct) (simp add: map_fst_view)
    have dpu: "distinct (pu @ c # pw)" using dE by (simp only: pk(1))
    have fE: "filter (\<lambda>a. a \<noteq> c) ?E = pu @ pw"
      by (subst pk(1)) (rule filter_split_distinct[OF dpu])
    have len: "length (pu @ pw) \<le> n"
    proof -
      have "length ?E = Suc (length (pu @ pw))" by (subst pk(1)) simp
      with Suc.prems(3) show ?thesis by simp
    qed
    have per1: "\<forall>a \<in> set (dl_expired dt1 (dl_view s1 xs1)).
        timeout_periodic (handles s1 a) = 0 \<or> dt1 < timeout_periodic (handles s1 a)"
    proof
      fix a assume "a \<in> set (dl_expired dt1 (dl_view s1 xs1))"
      then have "a \<in> set ?E" unfolding E1 by simp
      with Suc.prems(2) have "timeout_periodic (handles s a) = 0 \<or> dt < timeout_periodic (handles s a)"
        by blast
      then show "timeout_periodic (handles s1 a) = 0 \<or> dt1 < timeout_periodic (handles s1 a)"
        unfolding p1 using le1 by auto
    qed
    have len1: "length (dl_expired dt1 (dl_view s1 xs1)) \<le> n"
      unfolding E1 fE by (rule len)
    from Suc.IH[OF l1 per1 len1] obtain dt' s' where
      run: "dispatch_loop cbs n dt1 (hal_counter s) s1 = Some (True, dt', hal_counter s, s')"
      and i2: "invoked s' = invoked s1 @ filter ?Q (sort_key ?pr (pu @ pw))"
      unfolding h1 p1 E1 fE by blast
    have loop: "dispatch_loop cbs (Suc n) dt (hal_counter s) s = Some (True, dt', hal_counter s, s')"
      using True body run by simp
    have "sort_key ?pr ?E = c # sort_key ?pr (pu @ pw)"
      by (subst pk(1)) (rule sort_key_pick[OF pk(2,3)])
    then have inv: "invoked s' = invoked s @ filter ?Q (sort_key ?pr ?E)"
      using i1 i2 by simp
    from loop inv show ?thesis by blast
  qed
qed

lemma prefix_before:
  "distinct (E @ r) \<Longrightarrow> E @ r = us @ a # ws \<Longrightarrow> b \<in> set ws \<Longrightarrow> b \<in> set E
   \<Longrightarrow> \<exists>ws'. E = us @ a # ws' \<and> b \<in> set ws'"
proof (induction E arbitrary: us)
  case Nil
  then show ?case by simp
next
  case (Cons e E)
  from Cons.prems(1) have dd: "distinct (us @ a # ws)" unfolding Cons.prems(2) .
  show ?case
  proof (cases us)
    case Nil
    with Cons.prems(2) have ea: "e = a" "E @ r = ws" by simp_all
    from dd Cons.prems(3) have "b \<noteq> a" by auto
    with Cons.prems(4) ea have "e # E = [] @ a # E \<and> b \<in> set E" by simp
    then show ?thesis unfolding Nil by blast
  next
    case (Cons u us')
    with Cons.prems(2) have eu: "e = u" and r: "E @ r = us' @ a # ws" by simp_all
    from dd Cons.prems(3) have "b \<noteq> u" unfolding Cons by auto
    with Cons.prems(4) eu have bE: "b \<in> set E" by simp
    from Cons.prems(1) have "distinct (E @ r)" by simp
    from Cons.IH[OF this r Cons.prems(3) bE] obtain ws' where
      "E = us' @ a # ws'" "b \<in> set ws'" by blast
    then have "e # E = (u # us') @ a # ws' \<and> b \<in> set ws'" using eu by simp
    then show ?thesis unfolding Cons by blast
  qed
qed

lemma expired_prefix: "\<exists>r. map fst v = dl_expired t v @ r"
proof (induction v arbitrary: t)
  case Nil
  then show ?case by simp
next
  case (Cons p v)
  obtain a d where p: "p = (a, d)" by (cases p)
  from Cons.IH[of "t - d"] obtain r where "map fst v = dl_expired (t - d) v @ r" by blast
  then show ?case by (simp add: p)
qed

lemma process_compare_invoked:
  assumes "dispatch_loop cbs n (hal_counter s - last_delta_update_count s) (hal_counter s) s
             = Some (fin, dt', cc, s1)"
  shows "\<exists>s'. process_compare cbs n s = Some (fin, s') \<and> invoked s' = invoked s1"
  using assms
  by (simp add: process_compare_def sleeptimer_hal_get_counter_def Let_def set_delta_def
      sleeptimer_hal_disable_int_def)

lemma irq_compare: "process_timer_irq cbs n SLEEPTIMER_EVENT_COMP s = process_compare cbs n s"
  by (simp add: process_timer_irq_def SLEEPTIMER_EVENT_COMP_def SLEEPTIMER_EVENT_OF_def)


lemma instant_idle: "instant_callbacks idle_callbacks"
  by (simp add: instant_callbacks_def idle_callbacks_def)

lemmas demo_irq_defs =
  demo_defs process_timer_irq_def process_compare_def dispatch_body_def priority_walk.simps
  remove_walk.simps delta_list_remove_timer_def


lemma demo_mixed_list: "timer_list (demo_mixed\<lparr>hal_counter := 3\<rparr>) [16, 32]"
  by (simp add: timer_list_def demo_low_def demo_mixed_def demo_defs)

lemma demo_mixed_fields:
  "delta (handles demo_mixed 16) = 3" "delta (handles demo_mixed 32) = 0"
  "priority (handles demo_mixed 16) = 5" "priority (handles demo_mixed 32) = 1"
  "callback (handles demo_mixed 16) = 7" "callback (handles demo_mixed 32) = 7"
  "timeout_periodic (handles demo_mixed 16) = 0" "timeout_periodic (handles demo_mixed 32) = 0"
  "last_delta_update_count demo_mixed = 0" "invoked demo_mixed = []"
  by (simp_all add: demo_low_def demo_mixed_def demo_defs)


text \<open>
  A run the theorem says less about: a periodic timer whose period is not longer than
  the elapsed ticks. Handle 32 (priority 1, period 3) stands behind handle 16 (priority 5)
  with delta 0. Served at counter 3, it is called, \<open>delta_tot\<close> is not reduced, and it is
  inserted behind handle 16 with delta 0 again: four turns of the loop call it four
  times, handle 16 is not called and the loop has not ended.
\<close>

lemma periodic_timer_starves_the_other:
  "timer_list demo_periodic [16, 32]
   \<and> map_option fst (process_timer_irq idle_callbacks (Suc (Suc (Suc (Suc 0))))
         SLEEPTIMER_EVENT_COMP (demo_periodic\<lparr>hal_counter := 3\<rparr>)) = Some False
   \<and> map_option (invoked \<circ> snd) (process_timer_irq idle_callbacks (Suc (Suc (Suc (Suc 0))))
         SLEEPTIMER_EVENT_COMP (demo_periodic\<lparr>hal_counter := 3\<rparr>)) = Some [32, 32, 32, 32]"
  by (simp add: timer_list_def demo_periodic_def demo_low_def
      sl_sleeptimer_start_periodic_timer_def demo_irq_defs)

subsection \<open>Dates and time stamps\<close>

lemma divmod_eq:
  fixes n q b r :: nat
  shows "r < b \<Longrightarrow> n = q * b + r \<Longrightarrow> n div b = q \<and> n mod b = r"
  by simp

lemma secs:
  fixes D h mi s :: nat
  assumes "h < 24" "mi < 60" "s < 60" "T = D * 86400 + 3600 * h + 60 * mi + s"
  shows "T mod 60 = s" "T div 60 = D * 1440 + 60 * h + mi"
    "(D * 1440 + 60 * h + mi) mod 60 = mi" "(D * 1440 + 60 * h + mi) div 60 = D * 24 + h"
    "(D * 24 + h) mod 24 = h" "(D * 24 + h) div 24 = D"
proof -
  have "T = (D * 1440 + 60 * h + mi) * 60 + s" using assms(4) by simp
  from divmod_eq[OF assms(3) this] show "T mod 60 = s" "T div 60 = D * 1440 + 60 * h + mi"
    by simp_all
  have "D * 1440 + 60 * h + mi = (D * 24 + h) * 60 + mi" by simp
  from divmod_eq[OF assms(2) this]
  show "(D * 1440 + 60 * h + mi) mod 60 = mi" "(D * 1440 + 60 * h + mi) div 60 = D * 24 + h"
    by simp_all
  have "D * 24 + h = D * 24 + h" by simp
  from divmod_eq[OF assms(1) this] show "(D * 24 + h) mod 24 = h" "(D * 24 + h) div 24 = D"
    by simp_all
qed

lemma leap_step:
  fixes y :: nat
  assumes "3 \<le> y"
  shows "(y + 1 - 3) div 4 = (if y mod 4 = 2 then (y - 3) div 4 + 1 else (y - 3) div 4)"
proof -
  obtain z where z: "y = z + 3" using assms by (metis add.commute le_Suc_ex)
  have "(z + 3) mod 4 = 2 \<longleftrightarrow> Suc z mod 4 = 0"
    by (simp add: mod_Suc) arith
  then show ?thesis
    unfolding z by (simp add: div_Suc)
qed

lemma leap_bound:
  fixes y :: nat
  assumes "y \<le> 68"
  shows "(y - 3) div 4 + 1 \<le> 17"
proof -
  have "(y - 3) div 4 \<le> 65 div 4" using assms by (intro div_le_mono) simp
  then show ?thesis by simp
qed

lemma years_big:
  fixes y k :: nat
  assumes y: "3 \<le> y" "y \<le> 68" and k: "k \<le> 364 \<or> (k = 365 \<and> y mod 4 = 2)"
    and L: "L = (y - 3) div 4 + 1" and D: "D = 365 * y + L + k"
    and Y0: "Y0 = D div 365" and L0: "L0 = (Y0 - 3) div 4 + 1"
  shows "3 \<le> Y0 \<and> Y0 \<le> 69 \<and> L0 \<le> D \<and> (D - L0) div 365 = y"
proof -
  have Lb: "L \<le> 17" unfolding L using y(2) by (rule leap_bound)
  have kb: "k \<le> 365" using k by auto
  show ?thesis
  proof (cases "L + k < 365")
    case True
    have "D = y * 365 + (L + k)" using D by simp
    from divmod_eq[OF True this] have Y: "Y0 = y" using Y0 by simp
    then have l: "L0 = L" using L0 L by simp
    have "k < 365" using True by simp
    moreover have "D - L = y * 365 + k" using D by simp
    ultimately have "(D - L) div 365 = y" using divmod_eq by blast
    moreover have "L \<le> D" using D by simp
    ultimately show ?thesis using Y l y by simp
  next
    case False
    then have r: "L + k - 365 < 365" using Lb kb by simp
    have "D = (y + 1) * 365 + (L + k - 365)" using D False by simp
    from divmod_eq[OF r this] have Y: "Y0 = y + 1" using Y0 by simp
    have k1: "1 \<le> k" using False Lb by simp
    show ?thesis
    proof (cases "y mod 4 = 2")
      case True
      have l: "L0 = L + 1" unfolding L0 Y L using leap_step[OF y(1)] True by simp
      have "k - 1 < 365" using kb k1 by simp
      moreover have "D - (L + 1) = y * 365 + (k - 1)" using D k1 by simp
      ultimately have "(D - (L + 1)) div 365 = y" using divmod_eq by blast
      moreover have "L + 1 \<le> D" using D k1 by simp
      ultimately show ?thesis using Y l y by simp
    next
      case F: False
      have l: "L0 = L" unfolding L0 Y L using leap_step[OF y(1)] F by simp
      have "k < 365" using k F by auto
      moreover have "D - L = y * 365 + k" using D by simp
      ultimately have "(D - L) div 365 = y" using divmod_eq by blast
      moreover have "L \<le> D" using D by simp
      ultimately show ?thesis using Y l y by simp
    qed
  qed
qed

lemma unat_of_nat32: "a < 2 ^ 32 \<Longrightarrow> unat (of_nat a :: u32) = a"
  by (simp add: unat_of_nat)

lemma unat_of_nat16: "a < 2 ^ 16 \<Longrightarrow> unat (of_nat a :: u16) = a"
  by (simp add: unat_of_nat)

lemma unat_of_nat8: "a < 2 ^ 8 \<Longrightarrow> unat (of_nat a :: u8) = a"
  by (simp add: unat_of_nat)

lemma unat_lt8: "unat (w::u8) < 256"
  using unsigned_less[of w, where 'a=nat] by simp

lemma unat_ucast_8_32: "unat (ucast (w::u8) :: u32) = unat w"
  using unat_lt8[of w] by (simp add: unsigned_ucast_eq take_bit_nat_eq_self)

lemma unat_ucast_8_16: "unat (ucast (w::u8) :: u16) = unat w"
  using unat_lt8[of w] by (simp add: unsigned_ucast_eq take_bit_nat_eq_self)

lemma u32_of_nat_mod:
  assumes "a < 2 ^ 32" "b < 2 ^ 32"
  shows "(of_nat a :: u32) mod of_nat b = of_nat (a mod b)"
proof -
  have "a mod b < 2 ^ 32" using assms(1) by (rule le_less_trans[OF mod_less_eq_dividend])
  then show ?thesis
    using assms by (simp add: word_unat_eq_iff unat_mod_distrib unat_of_nat32)
qed

lemma u32_of_nat_div:
  assumes "a < 2 ^ 32" "b < 2 ^ 32"
  shows "(of_nat a :: u32) div of_nat b = of_nat (a div b)"
proof -
  have "a div b < 2 ^ 32" using assms(1) by (rule le_less_trans[OF div_le_dividend])
  then show ?thesis
    using assms by (simp add: word_unat_eq_iff unat_div_distrib unat_of_nat32)
qed

lemma u32_le_of_nat: "a < 2 ^ 32 \<Longrightarrow> b < 2 ^ 32 \<Longrightarrow> ((of_nat a :: u32) \<le> of_nat b) = (a \<le> b)"
  by (simp add: word_le_nat_alt unat_of_nat32)

lemma u8_le_of_nat: "a < 256 \<Longrightarrow> b < 256 \<Longrightarrow> ((of_nat a :: u8) \<le> of_nat b) = (a \<le> b)"
  by (simp add: word_le_nat_alt unat_of_nat8)

lemma u32_of_nat_sub: "b \<le> a \<Longrightarrow> (of_nat a :: u32) - of_nat b = of_nat (a - b)"
  by simp

lemma ucast_8_32_of_nat: "a < 256 \<Longrightarrow> (ucast (of_nat a :: u8) :: u32) = of_nat a"
  by (simp add: word_unat_eq_iff unat_of_nat32 unat_of_nat8 unat_ucast_8_32)

lemma ucast_32_8_of_nat: "(ucast (of_nat a :: u32) :: u8) = of_nat a"
  by (simp add: word_unat_eq_iff unat_of_nat unsigned_ucast_eq take_bit_eq_mod mod_mod_cancel)

lemma foldl_row:
  "foldl (\<lambda>acc d. acc + ucast d) (of_nat a :: u16) (xs :: u8 list) = of_nat (a + sum_list (map unat xs))"
proof (induction xs arbitrary: a)
  case Nil
  then show ?case by simp
next
  case (Cons x xs)
  have "(of_nat a :: u16) + ucast x = of_nat (a + unat x)" by simp
  then have "foldl (\<lambda>acc d. acc + ucast d) (of_nat a :: u16) (x # xs)
        = foldl (\<lambda>acc d. acc + ucast d) (of_nat (a + unat x)) xs" by (simp del: of_nat_add)
  also have "\<dots> = of_nat (a + unat x + sum_list (map unat xs))" by (rule Cons.IH)
  finally show ?case by (simp add: add.assoc)
qed

lemma month_walk_spec:
  "m < length r \<Longrightarrow> j < unat (r ! m) \<Longrightarrow> sum_list (map unat (take m r)) + j < 2 ^ 32 \<Longrightarrow>
   month_walk r (of_nat (sum_list (map unat (take m r)) + j)) c = Some (of_nat j, c + of_nat m)"
proof (induction r arbitrary: m c)
  case Nil
  then show ?case by simp
next
  case (Cons d ds)
  show ?case
  proof (cases m)
    case 0
    with Cons.prems have j: "j < unat d" "j < 2 ^ 32" by simp_all
    have "\<not> (ucast d :: u32) \<le> of_nat j"
      using j by (simp add: word_le_nat_alt unat_of_nat32 unat_ucast_8_32)
    then show ?thesis using 0 by simp
  next
    case (Suc m')
    let ?S = "sum_list (map unat (take m' ds))"
    from Cons.prems Suc have p: "m' < length ds" "j < unat (ds ! m')" "unat d + ?S + j < 2 ^ 32"
      by (simp_all add: add.assoc)
    have le: "(ucast d :: u32) \<le> of_nat (unat d + ?S + j)"
      using p(3) by (simp add: word_le_nat_alt unat_of_nat32 unat_ucast_8_32 del: of_nat_add)
    have sub: "(of_nat (unat d + ?S + j) :: u32) - ucast d = of_nat (?S + j)"
      by (simp add: add.assoc)
    have "month_walk ds (of_nat (?S + j)) (c + 1) = Some (of_nat j, c + 1 + of_nat m')"
      using p by (intro Cons.IH) simp_all
    then show ?thesis
      using le sub Suc by (simp add: add.assoc del: of_nat_add)
  qed
qed

lemma sdiv4_nat: "3 \<le> n \<Longrightarrow> (int n - 3) sdiv 4 = int ((n - 3) div 4)"
proof -
  assume "3 \<le> n"
  then have e: "int n - 3 = int (n - 3)" by simp
  show ?thesis
  proof (cases "n = 3")
    case True
    then show ?thesis by (simp add: signed_divide_int_def)
  next
    case False
    with \<open>3 \<le> n\<close> have "0 < int (n - 3)" by simp
    then show ?thesis unfolding e by (simp add: signed_divide_int_def zdiv_int)
  qed
qed

lemma leap_u8:
  assumes "3 \<le> n" "n < 256"
  shows "(word_of_int (TIME_LEAP_DAYS_UP_TO_YEAR (uint (of_nat n :: u8))) :: u8)
           = of_nat ((n - 3) div 4 + 1)"
proof -
  have "uint (of_nat n :: u8) = int n"
    using assms(2) by (simp add: uint_nat unat_of_nat8)
  then show ?thesis
    using assms(1) by (simp add: TIME_LEAP_DAYS_UP_TO_YEAR_def sdiv4_nat)
qed

lemma leap_le_17: "n \<le> 69 \<Longrightarrow> (n - 3) div 4 + 1 \<le> (17::nat)"
proof -
  assume "n \<le> 69"
  then have "(n - 3) div 4 \<le> 66 div 4" by (intro div_le_mono) simp
  then show ?thesis by simp
qed

lemma mod4_70: "(70 + y) mod 4 = 0 \<Longrightarrow> y mod 4 = (2::nat)"
  by arith

lemma time_to_date_nat:
  fixes y k h mi s :: nat
  assumes y: "y \<le> 68" and k: "k \<le> 364 \<or> (k = 365 \<and> y mod 4 = 2 \<and> y \<noteq> 2)"
    and h: "h < 24" and mi: "mi < 60" and s: "s < 60"
    and L: "L = (if 2 < y then (y - 3) div 4 + 1 else 0)"
    and T: "T = (365 * y + L + k) * 86400 + 3600 * h + 60 * mi + s" and Tb: "T < 2 ^ 31"
    and mw: "month_walk (drop (12 * (if is_leap_year (of_nat (70 + y)) then 1 else 0))
                           (concat days_in_month))
               (of_nat k) 0 = Some (t5, cm)"
  shows "\<exists>d'. sl_sleeptimer_convert_time_to_date (of_nat T) 0 d0 = Some (SL_STATUS_OK, d')
      \<and> sec d' = of_nat s \<and> min_field d' = of_nat mi \<and> hour d' = of_nat h
      \<and> year d' = of_nat (70 + y) \<and> month d' = cm \<and> month_day d' = ucast (t5 + 1)"
proof -
  define D where "D = 365 * y + L + k"
  define T1 where "T1 = D * 1440 + 60 * h + mi"
  define T2 where "T2 = D * 24 + h"
  define Tw :: u32 where "Tw = of_nat T"
  define T1w :: u32 where "T1w = of_nat T1"
  define T2w :: u32 where "T2w = of_nat T2"
  define Dw :: u32 where "Dw = of_nat D"
  define yw :: u8 where "yw = of_nat y"
  define Lw :: u8 where "Lw = of_nat L"
  define kw :: u32 where "kw = of_nat k"
  define Yw :: u16 where "Yw = of_nat (70 + y)"
  define sw :: u8 where "sw = of_nat s"
  define mw8 :: u8 where "mw8 = of_nat mi"
  define hw :: u8 where "hw = of_nat h"
  have T': "T = D * 86400 + 3600 * h + 60 * mi + s" using T D_def by simp
  note sc = secs[OF h mi s T', folded T1_def T2_def]
  have b: "T1 < 2 ^ 32" "T2 < 2 ^ 32" "D < 2 ^ 32" "T < 2 ^ 32"
    using Tb T' by (simp_all add: T1_def T2_def)
  have Lb: "L \<le> 17" using L y leap_le_17[of y] by (simp split: if_splits)
  have v: "is_valid_time Tw TIME_FORMAT_UNIX 0"
    using Tb by (simp add: is_valid_time_def Tw_def time_consts word_le_nat_alt word_less_nat_alt
        unat_of_nat32)
  have w1: "ucast (Tw mod 60) = sw"
    using u32_of_nat_mod[of T 60] b sc(1) by (simp add: Tw_def sw_def ucast_32_8_of_nat)
  have w2: "Tw div 60 = T1w"
    using u32_of_nat_div[of T 60] b sc(2) by (simp add: Tw_def T1w_def)
  have w3: "ucast (T1w mod 60) = mw8"
    using u32_of_nat_mod[of T1 60] b sc(3) by (simp add: T1w_def mw8_def ucast_32_8_of_nat)
  have w4: "T1w div 60 = T2w"
    using u32_of_nat_div[of T1 60] b sc(4) by (simp add: T1w_def T2w_def)
  have w5: "ucast (T2w mod 24) = hw"
    using u32_of_nat_mod[of T2 24] b sc(5) by (simp add: T2w_def hw_def ucast_32_8_of_nat)
  have w6: "T2w div 24 = Dw"
    using u32_of_nat_div[of T2 24] b sc(6) by (simp add: T2w_def Dw_def)
  define Y0 where "Y0 = D div 365"
  have f0: "(ucast (Dw div TIME_DAY_PER_YEAR) :: u8) = of_nat Y0"
    using u32_of_nat_div[of D 365] b
    by (simp add: Dw_def Y0_def TIME_DAY_PER_YEAR_def ucast_32_8_of_nat)
  have P: "(if (ucast (Dw div TIME_DAY_PER_YEAR) :: u8) > 2 then
                 let leap_day0 = (word_of_int (TIME_LEAP_DAYS_UP_TO_YEAR
                                    (uint (ucast (Dw div TIME_DAY_PER_YEAR) :: u8))) :: u8);
                     full_year1 = (ucast ((Dw - ucast leap_day0) div TIME_DAY_PER_YEAR) :: u8)
                 in (full_year1, (word_of_int (TIME_LEAP_DAYS_UP_TO_YEAR (uint full_year1)) :: u8))
               else (ucast (Dw div TIME_DAY_PER_YEAR), 0)) = (yw, Lw)"
  proof (cases "2 < y")
    case False
    then have k': "k < 365" using k by auto
    have "L = 0" using L False by simp
    then have "D = y * 365 + k" using D_def by simp
    from divmod_eq[OF k' this] have "Y0 = y" by (simp add: Y0_def)
    moreover have "\<not> 2 < (of_nat y :: u8)"
      using False by (simp add: word_less_nat_alt unat_of_nat8)
    ultimately show ?thesis
      unfolding f0 using \<open>L = 0\<close> by (simp add: yw_def Lw_def)
  next
    case True
    then have L': "L = (y - 3) div 4 + 1" using L by simp
    define L0 where "L0 = (Y0 - 3) div 4 + 1"
    have k': "k \<le> 364 \<or> (k = 365 \<and> y mod 4 = 2)" using k by auto
    from True have y3: "3 \<le> y" by simp
    from years_big[OF y3 y k' L' D_def Y0_def L0_def]
    have yb: "3 \<le> Y0" "Y0 \<le> 69" "L0 \<le> D" "(D - L0) div 365 = y" by simp_all
    have L0b: "L0 \<le> 17" unfolding L0_def using yb(2) by (rule leap_le_17)
    have c: "2 < (of_nat Y0 :: u8)"
      using yb by (simp add: word_less_nat_alt unat_of_nat8)
    have l0: "(word_of_int (TIME_LEAP_DAYS_UP_TO_YEAR (uint (of_nat Y0 :: u8))) :: u8) = of_nat L0"
      unfolding L0_def using yb by (intro leap_u8) simp_all
    have u0: "(ucast (of_nat L0 :: u8) :: u32) = of_nat L0"
      using L0b by (intro ucast_8_32_of_nat) simp
    have sb: "Dw - of_nat L0 = of_nat (D - L0)"
      unfolding Dw_def using yb(3) by simp
    have "D - L0 < 2 ^ 32" using b(3) by simp
    then have f1: "(ucast ((of_nat (D - L0) :: u32) div TIME_DAY_PER_YEAR) :: u8) = of_nat y"
      using u32_of_nat_div[of "D - L0" 365] yb(4)
      by (simp add: TIME_DAY_PER_YEAR_def ucast_32_8_of_nat)
    have l1: "(word_of_int (TIME_LEAP_DAYS_UP_TO_YEAR (uint (of_nat y :: u8))) :: u8) = of_nat L"
      unfolding L' using y3 y by (intro leap_u8) simp_all
    show ?thesis
      unfolding f0 Let_def by (simp only: c if_True l0 u0 sb f1 l1 yw_def Lw_def)
  qed
  have yr: "(ucast (TIME_NTP_UNIX_EPOCH_DIFF + ucast yw) :: u16) = Yw"
    using y by (simp add: yw_def Yw_def time_consts word_unat_eq_iff unat_of_nat unsigned_ucast_eq
        take_bit_eq_mod unat_word_ariths)
  have t4: "(Dw - ucast Lw) - (TIME_DAY_PER_YEAR * ucast yw) = kw"
  proof -
    have "(ucast Lw :: u32) = of_nat L" unfolding Lw_def using Lb by (intro ucast_8_32_of_nat) simp
    moreover have "(ucast yw :: u32) = of_nat y" unfolding yw_def using y by (intro ucast_8_32_of_nat) simp
    ultimately show ?thesis
      by (simp add: Dw_def D_def kw_def TIME_DAY_PER_YEAR_def)
  qed
  have mw': "month_walk (drop (12 * (if is_leap_year Yw then 1 else 0)) (concat days_in_month))
               kw 0 = Some (t5, cm)"
    using mw by (simp only: Yw_def kw_def)
  note P' = P[unfolded Let_def]
  have "sl_sleeptimer_convert_time_to_date Tw 0 d0
      = Some (SL_STATUS_OK,
          d0\<lparr>sec := sw, min_field := mw8, hour := hw, day_of_week := compute_day_of_week Dw,
             year := Yw, day_of_year := ucast (kw + 1),
             month := cm, month_day := ucast (t5 + 1), time_zone := 0\<rparr>)"
    apply (simp only: sl_sleeptimer_convert_time_to_date_def Let_def)
    apply (simp only: v not_True_eq_False if_False w1 w2 w3 w4 w5 w6)
    apply (simp only: P' prod.case yr t4)
    apply (simp add: mw')
    done
  then show ?thesis
    by (simp add: Tw_def sw_def mw8_def hw_def Yw_def)
qed

lemma valid_date_fields:
  assumes "is_valid_date date"
  shows "unat (year date) \<le> 138" "unat (month date) \<le> 11" "1 \<le> unat (month_day date)"
    "unat (month_day date)
       \<le> unat (days_in_month ! (if is_leap_year (year date) then 1 else 0) ! unat (month date))"
    "unat (hour date) \<le> 23" "unat (min_field date) \<le> 59" "unat (sec date) \<le> 59"
    "unat (year date) = 138 \<longrightarrow> unat (month date) = 0 \<and> unat (month_day date) \<le> 19
        \<and> unat (hour date) \<le> 3 \<and> unat (min_field date) \<le> 14 \<and> unat (sec date) \<le> 7"
proof -
  let ?C = "ucast (year date) > TIME_UNIX_YEAR_MAX
         \<or> month date > MONTH_DECEMBER
         \<or> (month_day date = 0
             \<or> month_day date
                 > days_in_month ! (if is_leap_year (year date) then 1 else 0) ! unat (month date))
         \<or> hour date > 23
         \<or> min_field date > 59
         \<or> sec date > 59"
  have a: "\<not> ?C"
  proof
    assume c: ?C
    have "\<not> is_valid_date date"
      unfolding is_valid_date_def by (simp only: c if_True not_False_eq_True)
    with assms show False by simp
  qed
  then have a': "?C = False" by simp
  have b: "ucast (year date) = TIME_UNIX_YEAR_MAX \<longrightarrow>
      \<not> month date > MONTH_JANUARY \<and> \<not> month_day date > 19 \<and> \<not> hour date > 3
      \<and> \<not> min_field date > 14 \<and> \<not> sec date > 7"
  proof
    assume e: "ucast (year date) = TIME_UNIX_YEAR_MAX"
    have "(if month date > MONTH_JANUARY then False
         else if month_day date > 19 then False
         else if hour date > 3 then False
         else if min_field date > 14 then False
         else if sec date > 7 then False
         else True)"
      using assms unfolding is_valid_date_def a' by (simp only: if_False e simp_thms if_True)
    then show "\<not> month date > MONTH_JANUARY \<and> \<not> month_day date > 19 \<and> \<not> hour date > 3
      \<and> \<not> min_field date > 14 \<and> \<not> sec date > 7"
      by (simp split: if_splits)
  qed
  have ym: "unat TIME_UNIX_YEAR_MAX = 138"
    by (simp add: TIME_UNIX_YEAR_MAX_def TIME_NTP_EPOCH_def)
  from a show "unat (year date) \<le> 138"
    by (simp add: word_less_nat_alt unat_ucast_16_32 ym)
  from a show "unat (month date) \<le> 11"
    by (simp add: word_less_nat_alt MONTH_DECEMBER_def)
  from a show "1 \<le> unat (month_day date)"
    by (simp add: unat_gt_0 Suc_le_eq)
  from a show "unat (month_day date)
       \<le> unat (days_in_month ! (if is_leap_year (year date) then 1 else 0) ! unat (month date))"
    by (simp add: word_less_nat_alt)
  from a show "unat (hour date) \<le> 23" "unat (min_field date) \<le> 59" "unat (sec date) \<le> 59"
    by (simp_all add: word_less_nat_alt)
  have "unat (year date) = 138 \<longrightarrow> ucast (year date) = TIME_UNIX_YEAR_MAX"
    by (simp add: word_unat_eq_iff unat_ucast_16_32 ym)
  with b show "unat (year date) = 138 \<longrightarrow> unat (month date) = 0 \<and> unat (month_day date) \<le> 19
        \<and> unat (hour date) \<le> 3 \<and> unat (min_field date) \<le> 14 \<and> unat (sec date) \<le> 7"
    by (auto simp add: word_less_nat_alt MONTH_JANUARY_def not_less)
qed

lemma month_cases:
  assumes "m \<le> (11::nat)"
  shows "m = 0 \<or> m = 1 \<or> m = 2 \<or> m = 3 \<or> m = 4 \<or> m = 5 \<or> m = 6 \<or> m = 7 \<or> m = 8
     \<or> m = 9 \<or> m = 10 \<or> m = 11"
  using assms by arith

lemma row_bound:
  assumes "m \<le> 11"
  shows "sum_list (map unat (take m (days_in_month ! 0))) + unat (days_in_month ! 0 ! m)
           \<le> 365"
    "sum_list (map unat (take m (days_in_month ! Suc 0))) + unat (days_in_month ! Suc 0 ! m)
           \<le> (if m = 11 then 366 else 335)"
  using month_cases[OF assms] by (auto simp: days_in_month_def)

lemma ucast_8_16_of_nat: "a < 256 \<Longrightarrow> (ucast (of_nat a :: u8) :: u16) = of_nat a"
  by (simp add: word_unat_eq_iff unat_of_nat16 unat_of_nat8 unat_ucast_8_16)

lemma ucast_16_32_of_nat: "a < 65536 \<Longrightarrow> (ucast (of_nat a :: u16) :: u32) = of_nat a"
  by (simp add: word_unat_eq_iff unat_of_nat16 unat_of_nat32 unat_ucast_16_32)

lemma leap_year_mod4: "is_leap_year w \<Longrightarrow> unat w mod 4 = 0"
  by (simp add: is_leap_year_def word_unat_eq_iff unat_mod_distrib)

text \<open>
  C8, amended. Take a date that \<^verbatim>\<open>is_valid_date\<close> accepts, of the year 1970 or later (the
  year field counts from 1900), with time zone 0, other than 31 December 1972.
  \<^verbatim>\<open>sl_sleeptimer_convert_date_to_time\<close> returns Ok with a time stamp, and
  \<^verbatim>\<open>sl_sleeptimer_convert_time_to_date\<close> on this time stamp with the same time zone returns
  Ok with the same year, month, day of the month, hour, minute and second.
\<close>

theorem date_round_trip:
  assumes v: "is_valid_date date" and y70: "70 \<le> year date" and tz: "time_zone date = 0"
    and ex: "\<not> (year date = 72 \<and> month date = 11 \<and> month_day date = 31)"
  shows "\<exists>t d'. sl_sleeptimer_convert_date_to_time date = Inr t
      \<and> sl_sleeptimer_convert_time_to_date t (time_zone date) d0 = Some (SL_STATUS_OK, d')
      \<and> year d' = year date \<and> month d' = month date \<and> month_day d' = month_day date
      \<and> hour d' = hour date \<and> min_field d' = min_field date \<and> sec d' = sec date"
proof -
  define Y where "Y = unat (year date)"
  define y where "y = Y - 70"
  define m where "m = unat (month date)"
  define dd where "dd = unat (month_day date)"
  define h where "h = unat (hour date)"
  define mi where "mi = unat (min_field date)"
  define s where "s = unat (sec date)"
  define fl :: nat where "fl = (if is_leap_year (year date) then 1 else 0)"
  define row where "row = days_in_month ! fl"
  define S where "S = sum_list (map unat (take m row))"
  define k where "k = S + (dd - 1)"
  define L where "L = (if 2 < y then (y - 3) div 4 + 1 else 0)"
  define T where "T = (365 * y + L + k) * 86400 + 3600 * h + 60 * mi + s"
  note vf = valid_date_fields[OF v, folded Y_def m_def dd_def h_def mi_def s_def fl_def row_def]
  have Y70: "70 \<le> Y" using y70 by (simp add: Y_def word_le_nat_alt)
  have Yy: "Y = 70 + y" using Y70 by (simp add: y_def)
  have yb: "y \<le> 68" using vf(1) Yy by simp
  have fields: "year date = of_nat (70 + y)" "month date = of_nat m" "month_day date = of_nat dd"
    "hour date = of_nat h" "min_field date = of_nat mi" "sec date = of_nat s"
    unfolding Yy[symmetric] by (simp_all add: Y_def m_def dd_def h_def mi_def s_def)
  have rl: "length row = 12" by (simp add: row_def fl_def days_in_month_def)
  have ml: "m < length row" using vf(2) rl by simp
  have rb: "S + unat (row ! m) \<le> (if fl = 1 \<and> m = 11 then 366 else 365)"
    using row_bound[OF vf(2)] by (auto simp: S_def row_def fl_def)
  have kb: "k \<le> 364 \<or> (k = 365 \<and> y mod 4 = 2 \<and> y \<noteq> 2)"
  proof (cases "fl = 1 \<and> m = 11 \<and> dd = 31")
    case False
    have "S + dd \<le> 365"
    proof (cases "fl = 1 \<and> m = 11")
      case True
      with False have "dd \<noteq> 31" by simp
      moreover have "unat (row ! m) = 31" using True by (simp add: row_def days_in_month_def)
      moreover have "S = 335" using True by (simp add: S_def row_def days_in_month_def)
      ultimately show ?thesis using vf(4) by simp
    next
      case F: False
      then have "S + unat (row ! m) \<le> 365" using rb by (simp only: if_False)
      then show ?thesis using vf(4) by simp
    qed
    then have "k \<le> 364" using vf(3) unfolding k_def by arith
    then show ?thesis by simp
  next
    case True
    then have lp: "is_leap_year (year date)" by (simp add: fl_def split: if_splits)
    from leap_year_mod4[OF this] have "(70 + y) mod 4 = 0" using Yy by (simp add: Y_def)
    then have y4: "y mod 4 = 2" by (rule mod4_70)
    have "y \<noteq> 2"
    proof
      assume "y = 2"
      with fields True have "year date = 72 \<and> month date = 11 \<and> month_day date = 31" by simp
      with ex show False by simp
    qed
    moreover have "S = 335" using True by (simp add: S_def row_def days_in_month_def)
    ultimately show ?thesis using True y4 by (simp add: k_def)
  qed
  have k365: "k \<le> 365" using kb by auto
  have Lb: "L \<le> 17" using yb leap_le_17[of y] by (simp add: L_def)
  have Tb: "T < 2 ^ 31"
  proof (cases "Y = 138")
    case True
    with vf(8) have r: "m = 0" "dd \<le> 19" "h \<le> 3" "mi \<le> 14" "s \<le> 7" by simp_all
    have "S = 0" using r(1) by (simp add: S_def)
    then have "k \<le> 18" using r(2) by (simp add: k_def)
    moreover have "y = 68" using True Yy by simp
    ultimately have "365 * y + L + k \<le> 24855" using Lb by simp
    then have "(365 * y + L + k) * 86400 \<le> 24855 * 86400" by (rule mult_le_mono1)
    then show ?thesis using r by (simp add: T_def)
  next
    case False
    then have "y \<le> 67" using yb Yy vf(1) by simp
    then have "365 * y + L + k \<le> 24837" using Lb k365 by simp
    then have "(365 * y + L + k) * 86400 \<le> 24837 * 86400" by (rule mult_le_mono1)
    then show ?thesis using vf(5,6,7) by (simp add: T_def)
  qed
  have d2t: "sl_sleeptimer_convert_date_to_time date = Inr (of_nat T)"
  proof -
    have fy: "(ucast (ucast (year date) - TIME_NTP_UNIX_EPOCH_DIFF) :: u8) = of_nat y"
    proof -
      have "(ucast (year date) :: u32) = of_nat Y"
        by (simp add: Y_def word_unat_eq_iff unat_ucast_16_32)
      then have "(ucast (year date) :: u32) - TIME_NTP_UNIX_EPOCH_DIFF = of_nat y"
        using Y70 by (simp add: time_consts y_def)
      then show ?thesis by (simp only: ucast_32_8_of_nat)
    qed
    have c: "(2 < (of_nat y :: u8)) = (2 < y)"
      using yb by (simp add: word_less_nat_alt unat_of_nat8)
    have md0: "(if 2 < (of_nat y :: u8)
                then (ucast (word_of_int (TIME_LEAP_DAYS_UP_TO_YEAR (uint (of_nat y :: u8))) :: u8) :: u16)
                else 0) = of_nat L"
    proof (cases "2 < y")
      case True
      then have "(word_of_int (TIME_LEAP_DAYS_UP_TO_YEAR (uint (of_nat y :: u8))) :: u8) = of_nat L"
        using yb unfolding L_def by (simp add: leap_u8)
      moreover have "(ucast (of_nat L :: u8) :: u16) = of_nat L"
        using Lb by (intro ucast_8_16_of_nat) simp
      ultimately show ?thesis using True by (simp only: c if_True)
    next
      case False
      then show ?thesis by (simp add: c L_def)
    qed
    have md1: "foldl (\<lambda>acc d. acc + ucast d) (of_nat L :: u16) (take m row) = of_nat (L + S)"
      unfolding S_def by (rule foldl_row)
    have md2: "(of_nat (L + S) :: u16) + (ucast (month_day date) - 1) = of_nat (L + k)"
    proof -
      have "(ucast (month_day date) :: u16) = of_nat dd"
        by (simp add: dd_def word_unat_eq_iff unat_ucast_8_16)
      moreover have "(of_nat dd :: u16) - 1 = of_nat (dd - 1)" using vf(3) by simp
      ultimately show ?thesis by (simp add: k_def)
    qed
    have md3: "(ucast (of_nat (L + k) :: u16) :: u32) = of_nat (L + k)"
      using Lb k365 by (intro ucast_16_32_of_nat) simp
    have hms: "(ucast (hour date) :: u32) = of_nat h" "(ucast (min_field date) :: u32) = of_nat mi"
      "(ucast (sec date) :: u32) = of_nat s"
      by (simp_all add: h_def mi_def s_def word_unat_eq_iff unat_ucast_8_32)
    have fyu: "(ucast (of_nat y :: u8) :: u32) = of_nat y"
      using yb by (intro ucast_8_32_of_nat) simp
    have fin: "(of_nat y :: u32) * TIME_SEC_PER_YEAR + of_nat (L + k) * TIME_SEC_PER_DAY
                + (3600 * of_nat h + 60 * of_nat mi + of_nat s) + 0 = of_nat T"
      by (simp add: T_def time_consts algebra_simps)
    have flw: "(if is_leap_year (year date) then 1 else 0) = fl" by (simp add: fl_def)
    show ?thesis
      apply (simp only: sl_sleeptimer_convert_date_to_time_def Let_def v not_True_eq_False if_False)
      apply (simp only: fy flw row_def[symmetric] m_def[symmetric] md0 md1 md2 md3 hms fyu tz fin)
      done
  qed
  have mw: "month_walk (drop (12 * (if is_leap_year (of_nat (70 + y)) then 1 else 0))
                           (concat days_in_month))
               (of_nat k) 0 = Some (of_nat (dd - 1), 0 + of_nat m)"
  proof -
    define flat where "flat = drop (12 * fl) (concat days_in_month)"
    have fl01: "fl = 0 \<or> fl = 1" by (simp add: fl_def)
    have m12: "m < 12" using vf(2) by simp
    have fa: "flat = row @ (if fl = 0 then days_in_month ! 1 else [])"
      using fl01 by (auto simp: flat_def row_def days_in_month_def)
    have fr: "m < length flat" "flat ! m = row ! m" "take m flat = take m row"
      using m12 rl unfolding fa by (simp_all add: nth_append)
    have "month_walk flat (of_nat (sum_list (map unat (take m flat)) + (dd - 1))) 0
            = Some (of_nat (dd - 1), 0 + of_nat m)"
      using fr vf(3,4) k365 unfolding k_def S_def by (intro month_walk_spec) simp_all
    then show ?thesis
      unfolding fields(1)[symmetric] fr(3) by (simp only: flat_def fl_def k_def S_def)
  qed
  from time_to_date_nat[OF yb kb _ _ _ L_def T_def Tb mw, of d0] vf(5,6,7)
  obtain d' where r: "sl_sleeptimer_convert_time_to_date (of_nat T) 0 d0 = Some (SL_STATUS_OK, d')"
      "sec d' = of_nat s" "min_field d' = of_nat mi" "hour d' = of_nat h"
      "year d' = of_nat (70 + y)" "month d' = 0 + of_nat m"
      "month_day d' = ucast ((of_nat (dd - 1) :: u32) + 1)"
    by auto
  have "(of_nat (dd - 1) :: u32) + 1 = of_nat dd" using vf(3) by simp
  then have "month_day d' = of_nat dd" using r(7) by (simp only: ucast_32_8_of_nat)
  with r d2t fields show ?thesis by (simp add: tz)
qed

lemmas date_defs =
  is_valid_date_def is_leap_year_def days_in_month_def TIME_UNIX_YEAR_MAX_def
  MONTH_JANUARY_def MONTH_DECEMBER_def sl_sleeptimer_convert_date_to_time_def
  sl_sleeptimer_convert_time_to_date_def TIME_LEAP_DAYS_UP_TO_YEAR_def compute_day_of_week_def
  is_valid_time_def time_consts Let_def signed_divide_int_def

theorem date_round_trip_witness:
  "sl_sleeptimer_convert_date_to_time demo_date = Inr 1709208000
   \<and> (\<exists>d'. sl_sleeptimer_convert_time_to_date 1709208000 0 demo_date = Some (SL_STATUS_OK, d')
        \<and> year d' = 124 \<and> month d' = 1 \<and> month_day d' = 29
        \<and> hour d' = 12 \<and> min_field d' = 0 \<and> sec d' = 0)"
  using date_round_trip [of demo_date demo_date]
  by (simp add: demo_date_def date_defs)

text \<open>
  C8 as stated fails when the time zone is not 0: \<^verbatim>\<open>sl_sleeptimer_convert_date_to_time\<close>
  adds the zone to the time stamp and \<^verbatim>\<open>sl_sleeptimer_convert_time_to_date\<close> does not
  take it off. 1 January 1970, 00:00:00 with a zone of 3600 seconds is accepted, becomes
  the time stamp 3600 and comes back with the hour 1.
\<close>

theorem date_round_trip_counterexample:
  "is_valid_date demo_date_east
   \<and> sl_sleeptimer_convert_date_to_time demo_date_east = Inr 3600
   \<and> map_option (hour \<circ> snd)
        (sl_sleeptimer_convert_time_to_date 3600 (time_zone demo_date_east) demo_date_east) = Some 1
   \<and> hour demo_date_east = 0"
  by (simp add: demo_date_east_def date_defs)

text \<open>
  Dates and time stamps the theorem leaves aside. 31 December 1972 comes back as 30 December: for the
  day count 1095 the second estimate of \<open>full_year\<close> is 2, and the macro gives one leap
  day for it. 29 February 2000 is refused: \<^verbatim>\<open>is_leap_year\<close> is applied to the year counted
  from 1900, and 100 is not a leap year. The year 2000 having 365 days for the code, the
  time stamp of the day after its last day is given the month 12.
\<close>

lemma last_day_of_1972:
  "sl_sleeptimer_convert_date_to_time (demo_date\<lparr>year := 72, month := 11, month_day := 31, hour := 0\<rparr>)
     = Inr 94608000
   \<and> map_option (month_day \<circ> snd) (sl_sleeptimer_convert_time_to_date 94608000 0 demo_date) = Some 30"
  by (simp add: demo_date_def date_defs)

lemma day_after_2000:
  "map_option (month \<circ> snd) (sl_sleeptimer_convert_time_to_date 978220800 0 demo_date) = Some 12"
  by (simp add: demo_date_def date_defs)

lemma leap_day_of_2000:
  "sl_sleeptimer_convert_date_to_time (demo_date\<lparr>year := 100\<rparr>) = Inl SL_STATUS_INVALID_PARAMETER"
  by (simp add: demo_date_def date_defs)

end
